theory Spec2Isabelle
  imports Complex_Main "HOL-Library.Word" "HOL-Library.Log_Nat"
begin

unbundle bit_operations_syntax

section \<open>Data model (types.ts)\<close>

datatype ConversationStatus =
  Idle | Generating | Briefing | Ready | Active | Summarizing | PausedForFeedback | Error

datatype speaker = User | Npc

datatype gender = Male | Female | Neutral

datatype level = Low | Medium | High

datatype accent = Local | NeutralAccent | Heavy

record NpcProfile =
  name :: string
  gender :: gender
  voice :: string
  languagePrimary :: string
  languageSecondary :: "string option"
  fluencyPrimary :: level
  fluencySecondary :: "level option"
  patience :: level
  helpfulness :: level
  accent :: accent
  quirk :: string

record Scenario =
  locationName :: string
  locationType :: string
  task :: string
  npcProfile :: NpcProfile
  sceneDescription :: string
  conversationStarter :: speaker
  openingLine :: "string option"

text \<open>
  The interface \<open>Transcript\<close>. The optional field \<open>imageUrl\<close> is an option; the field
  \<open>text\<close> is written \<open>text'\<close>.
\<close>

record Transcript =
  speaker :: speaker
  text' :: string
  isFinal :: bool
  imageUrl :: "string option"

record ConversationResult =
  summary :: string
  tips :: "string list"
  taskComplete :: bool
  suggestedContinuation :: "string option"
  suggestedContinuationExplanation :: "string option"

record StudyCardEntry =
  term' :: string
  translation :: string

record StudyCardHint =
  vocabulary :: "StudyCardEntry list"
  phrases :: "StudyCardEntry list"

text \<open>The \<open>Blob\<close> of the service library: a base64 payload and its MIME type.\<close>

record Blob =
  data :: string
  mimeType :: string

section \<open>Numbers, typed arrays and base64\<close>

type_synonym byte = "8 word"
type_synonym int16 = "16 word"

text \<open>
  A JavaScript number is a finite value, a NaN or an infinity. The finite values are
  carried as reals: the two operations the audio helpers apply to a sample, the
  multiplication of a 32-bit float by \<open>32768\<close> and the division of a 16-bit integer by
  \<open>32768.0\<close>, only change the exponent of a binary floating-point number, so they are
  exact in double precision and the quotient fits a 32-bit float.
\<close>

datatype number = Finite real | NaN | PosInfinity | NegInfinity

datatype exn = InvalidCharacterError | RangeError | NotSupportedError

text \<open>\<open>data[i] * 32768\<close>.\<close>

fun times32768 :: "number \<Rightarrow> number" where
  "times32768 (Finite x) = Finite (x * 32768)"
| "times32768 NaN = NaN"
| "times32768 PosInfinity = PosInfinity"
| "times32768 NegInfinity = NegInfinity"

text \<open>Truncation towards zero, the first step of every integer conversion of ECMAScript.\<close>

definition trunc :: "real \<Rightarrow> int" where
  "trunc x = (if 0 \<le> x then \<lfloor>x\<rfloor> else \<lceil>x\<rceil>)"

text \<open>
  Storing a number into an \<open>Int16Array\<close> applies ECMAScript's \<open>ToInt16\<close>: a value that is
  not finite becomes \<open>0\<close>, a finite one is truncated towards zero and reduced modulo
  \<open>2^16\<close> into the signed range. The reduction is what \<open>word_of_int\<close> does; \<open>sint\<close> reads
  the stored element.
\<close>

fun toInt16 :: "number \<Rightarrow> int16" where
  "toInt16 (Finite x) = word_of_int (trunc x)"
| "toInt16 NaN = 0"
| "toInt16 PosInfinity = 0"
| "toInt16 NegInfinity = 0"

text \<open>
  \<open>new Uint8Array(int16.buffer)\<close>: the bytes of the buffer behind an \<open>Int16Array\<close>. Typed
  arrays use the byte order of the platform, which is little-endian on every platform
  browsers run on: the low byte of each element comes first.
\<close>

fun uint8_view :: "int16 list \<Rightarrow> byte list" where
  "uint8_view [] = []"
| "uint8_view (w # ws) = ucast w # ucast (drop_bit 8 w) # uint8_view ws"

text \<open>
  \<open>new Int16Array(data.buffer)\<close>: the same buffer read as 16-bit elements. The
  constructor raises a \<open>RangeError\<close> when the byte length is odd; \<open>int16_view\<close> is the
  reading itself, applied after that check.
\<close>

fun int16_view :: "byte list \<Rightarrow> int16 list" where
  "int16_view (lo # hi # bs) = (push_bit 8 (ucast hi) OR ucast lo) # int16_view bs"
| "int16_view bs = []"

definition new_Int16Array :: "byte list \<Rightarrow> exn + int16 list" where
  "new_Int16Array buffer =
     (if odd (length buffer) then Inl RangeError else Inr (int16_view buffer))"

subsection \<open>The platform's \<open>btoa\<close> and \<open>atob\<close>\<close>

text \<open>
  A binary string is a string whose code units are below 256, that is, a list of
  \<^typ>\<open>char\<close>. \<open>btoa\<close> is base64 with padding (RFC 4648); \<open>atob\<close> is the forgiving base64
  decoder of the HTML standard: it drops ASCII whitespace, removes one or two padding
  signs when the length is a multiple of four, fails on a length that is 1 modulo 4 and
  on a character outside the alphabet, and discards the bits left over in the last group.
  The alphabet is \<open>A\<close> to \<open>Z\<close>, \<open>a\<close> to \<open>z\<close>, \<open>0\<close> to \<open>9\<close>, \<open>+\<close> and \<open>/\<close>, for the
  digits 0 to 63.
\<close>

definition b64_char :: "nat \<Rightarrow> char" where
  "b64_char n =
     (let k = n mod 64 in
      if k < 26 then char_of (65 + k)
      else if k < 52 then char_of (71 + k)
      else if k < 62 then char_of (k - 4)
      else if k = 62 then CHR ''+''
      else CHR ''/'')"

definition b64_digit :: "char \<Rightarrow> nat option" where
  "b64_digit c =
     (let n = (of_char c :: nat) in
      if 65 \<le> n \<and> n \<le> 90 then Some (n - 65)
      else if 97 \<le> n \<and> n \<le> 122 then Some (n - 71)
      else if 48 \<le> n \<and> n \<le> 57 then Some (n + 4)
      else if n = 43 then Some 62
      else if n = 47 then Some 63
      else None)"

fun btoa :: "string \<Rightarrow> string" where
  "btoa (a # b # c # rest) =
     (let n = (of_char a :: nat) * 65536 + of_char b * 256 + of_char c in
      b64_char (n div 262144) # b64_char (n div 4096) # b64_char (n div 64) # b64_char n
        # btoa rest)"
| "btoa [a, b] =
     (let n = (of_char a :: nat) * 1024 + of_char b * 4 in
      [b64_char (n div 4096), b64_char (n div 64), b64_char n, CHR ''=''])"
| "btoa [a] =
     (let n = (of_char a :: nat) * 16 in
      [b64_char (n div 64), b64_char n, CHR ''='', CHR ''=''])"
| "btoa [] = []"

definition ascii_whitespace :: "char \<Rightarrow> bool" where
  "ascii_whitespace c = ((of_char c :: nat) \<in> {9, 10, 12, 13, 32})"

definition strip_padding :: "string \<Rightarrow> string" where
  "strip_padding s =
     (if length s mod 4 = 0 \<and> s \<noteq> [] \<and> last s = CHR ''=''
      then (if butlast s \<noteq> [] \<and> last (butlast s) = CHR ''=''
            then butlast (butlast s) else butlast s)
      else s)"

fun atob_groups :: "nat list \<Rightarrow> string" where
  "atob_groups (a # b # c # d # rest) =
     (let n = a * 262144 + b * 4096 + c * 64 + d in
      char_of (n div 65536) # char_of (n div 256) # char_of n # atob_groups rest)"
| "atob_groups [a, b, c] =
     (let n = a * 4096 + b * 64 + c in [char_of (n div 1024), char_of (n div 4)])"
| "atob_groups [a, b] = [char_of ((a * 64 + b) div 16)]"
| "atob_groups ds = []"

definition atob :: "string \<Rightarrow> string option" where
  "atob s =
     (let d = strip_padding (filter (\<lambda>c. \<not> ascii_whitespace c) s) in
      if length d mod 4 = 1 then None
      else map_option atob_groups (those (map b64_digit d)))"

section \<open>Double-precision arithmetic\<close>

text \<open>
  The times of the output clock are JavaScript numbers, IEEE 754 doubles, and the
  quotient and the sum that compute them are rounded. A finite double is carried as the
  real it denotes. \<open>expo x\<close> is the binary exponent of \<open>x\<close>, the \<open>e\<close> with
  \<open>2 ^ e \<le> \<bar>x\<bar> < 2 ^ (e + 1)\<close>; \<open>rnd_even\<close> rounds to the nearest integer, a tie to
  the even one; \<open>to_double x\<close> is the real with 53 significant bits nearest to \<open>x\<close>, a
  tie going to the even significand: the double that an operation returns whose exact
  result is \<open>x\<close>. \<open>is_double\<close> holds of the reals that rounding leaves alone.

  The exponent has no bounds in the model. Every double, the subnormal ones too, has at
  most 53 significant bits and so is an \<open>is_double\<close>; a sum of two doubles that falls in
  the subnormal range is exact in IEEE 754, as it is here; the durations, quotients of
  at least \<open>1 / 96000\<close>, are far from that range. An operation overflows to \<open>Infinity\<close>
  when its rounded result would exceed \<open>max_double\<close>, the largest double. The sum of a
  time up to \<open>max_double\<close> and of a duration below \<open>2 ^ 970\<close> seconds rounds to
  \<open>max_double\<close> at most, so the times that the code computes from the readings of a
  clock and from the durations of buffers stay finite, and they are the model's.
\<close>

definition expo :: "real \<Rightarrow> int" where
  "expo x = (if 1 \<le> \<bar>x\<bar> then bitlen \<lfloor>\<bar>x\<bar>\<rfloor> - 1 else - bitlen (\<lceil>1 / \<bar>x\<bar>\<rceil> - 1))"

definition rnd_even :: "real \<Rightarrow> int" where
  "rnd_even t =
     (let f = \<lfloor>t\<rfloor> in
      if t - of_int f < 1 / 2 then f
      else if 1 / 2 < t - of_int f then f + 1
      else if even f then f else f + 1)"

definition to_double :: "real \<Rightarrow> real" where
  "to_double x =
     (if x = 0 then 0
      else of_int (rnd_even (x / 2 powi (expo x - 52))) * 2 powi (expo x - 52))"

definition is_double :: "real \<Rightarrow> bool" where
  "is_double x = (to_double x = x)"

definition max_double :: real where
  "max_double = (2 ^ 53 - 1) * 2 ^ 971"

section \<open>Audio helper functions\<close>

text \<open>
  \<open>encode\<close> (services/geminiService): the bytes become a binary string, one code unit
  per byte, and the string goes through \<open>btoa\<close>.
\<close>

fun encode_loop :: "byte list \<Rightarrow> string \<Rightarrow> string" where
  "encode_loop [] binary = binary"
| "encode_loop (b # bytes) binary = encode_loop bytes (binary @ [char_of (unat b)])"

definition encode :: "byte list \<Rightarrow> string" where
  "encode bytes = btoa (encode_loop bytes [])"

text \<open>
  \<open>createBlob\<close>: \<open>new Int16Array(l)\<close> is filled with zeros, the loop stores
  \<open>data[i] * 32768\<close> into element \<open>i\<close>, and the bytes of the buffer are encoded.
\<close>

function createBlob_loop :: "number list \<Rightarrow> nat \<Rightarrow> int16 list \<Rightarrow> int16 list" where
  "createBlob_loop samples i int16 =
     (if i < length samples
      then createBlob_loop samples (Suc i) (int16[i := toInt16 (times32768 (samples ! i))])
      else int16)"
  by pat_completeness auto
termination
  by (relation "measure (\<lambda>(samples, i, int16). length samples - i)") auto

definition createBlob :: "number list \<Rightarrow> Blob" where
  "createBlob samples =
     (let l = length samples;
          int16 = createBlob_loop samples 0 (replicate l 0)
      in \<lparr>data = encode (uint8_view int16), mimeType = ''audio/pcm;rate=16000''\<rparr>)"

text \<open>
  The integer that \<open>createBlob\<close> stores for a sample, read back as a signed value, and
  the two bytes of a 16-bit integer, low byte first.
\<close>

definition quantize :: "number \<Rightarrow> int" where
  "quantize x = sint (toInt16 (times32768 x))"

definition le16 :: "int \<Rightarrow> byte list" where
  "le16 k = [word_of_int k, word_of_int (k div 256)]"

text \<open>
  \<open>decode\<close> (the application): \<open>atob\<close> raises an \<open>InvalidCharacterError\<close> on a string that
  is not base64; otherwise each code unit of the binary string becomes a byte.
\<close>

fun decode_loop :: "string \<Rightarrow> byte list \<Rightarrow> byte list" where
  "decode_loop [] bytes = bytes"
| "decode_loop (c # binaryString) bytes = decode_loop binaryString (bytes @ [of_char c])"

definition decode :: "string \<Rightarrow> exn + byte list" where
  "decode base64 =
     (case atob base64 of
        None \<Rightarrow> Inl InvalidCharacterError
      | Some binaryString \<Rightarrow> Inr (decode_loop binaryString []))"

text \<open>
  An \<open>AudioBuffer\<close>: its sample rate and one list of samples per channel.
  \<open>createBuffer\<close> raises a \<open>NotSupportedError\<close> for a channel count or a length of zero
  and for a rate it does not support; every implementation supports up to 32 channels
  and the rates from 8000 to 96000 Hz, and the model accepts exactly those. Its length
  argument is an unsigned integer, so a fractional \<open>frameCount\<close> is truncated; the
  buffer starts silent. Its \<open>duration\<close> is the double \<open>length / sampleRate\<close>.
\<close>

record AudioBuffer =
  rate :: nat
  channelData :: "number list list"

definition duration :: "AudioBuffer \<Rightarrow> real" where
  "duration buffer =
     to_double (real (case channelData buffer of [] \<Rightarrow> 0 | c # cs \<Rightarrow> length c)
                  / real (rate buffer))"

definition createBuffer :: "nat \<Rightarrow> nat \<Rightarrow> nat \<Rightarrow> exn + AudioBuffer" where
  "createBuffer numChannels frameCount sampleRate =
     (if numChannels = 0 \<or> 32 < numChannels \<or> frameCount = 0
         \<or> sampleRate < 8000 \<or> 96000 < sampleRate
      then Inl NotSupportedError
      else Inr \<lparr>rate = sampleRate,
                channelData = replicate numChannels (replicate frameCount (Finite 0))\<rparr>)"

text \<open>
  \<open>dataInt16[k] / 32768.0\<close>; a read past the end of a typed array is \<open>undefined\<close>, and
  \<open>undefined / 32768.0\<close> is NaN.
\<close>

definition sample_of :: "int16 list \<Rightarrow> nat \<Rightarrow> number" where
  "sample_of dataInt16 k =
     (if k < length dataInt16 then Finite (real_of_int (sint (dataInt16 ! k)) / 32768) else NaN)"

text \<open>The inner loop of \<open>decodeAudioData\<close>, over the frames of one channel.\<close>

function decode_frames :: "int16 list \<Rightarrow> nat \<Rightarrow> nat \<Rightarrow> nat \<Rightarrow> nat \<Rightarrow> number list \<Rightarrow> number list" where
  "decode_frames dataInt16 numChannels frameCount channel i samples =
     (if i < frameCount
      then decode_frames dataInt16 numChannels frameCount channel (Suc i)
             (samples[i := sample_of dataInt16 (i * numChannels + channel)])
      else samples)"
  by pat_completeness auto
termination
  by (relation "measure (\<lambda>(d, n, frameCount, c, i, s). frameCount - i)") auto

text \<open>The outer loop, over the channels.\<close>

function decode_channels :: "int16 list \<Rightarrow> nat \<Rightarrow> nat \<Rightarrow> nat \<Rightarrow> AudioBuffer \<Rightarrow> AudioBuffer" where
  "decode_channels dataInt16 numChannels frameCount channel buffer =
     (if channel < numChannels
      then decode_channels dataInt16 numChannels frameCount (Suc channel)
             (buffer\<lparr>channelData := (channelData buffer)
                [channel := decode_frames dataInt16 numChannels frameCount channel 0
                              (channelData buffer ! channel)]\<rparr>)
      else buffer)"
  by pat_completeness auto
termination
  by (relation "measure (\<lambda>(d, numChannels, f, channel, b). numChannels - channel)") auto

definition decodeAudioData :: "byte list \<Rightarrow> nat \<Rightarrow> nat \<Rightarrow> exn + AudioBuffer" where
  "decodeAudioData bytes sampleRate numChannels =
     (case new_Int16Array bytes of
        Inl e \<Rightarrow> Inl e
      | Inr dataInt16 \<Rightarrow>
          (let frameCount = length dataInt16 div numChannels in
           case createBuffer numChannels frameCount sampleRate of
             Inl e \<Rightarrow> Inl e
           | Inr buffer \<Rightarrow> Inr (decode_channels dataInt16 numChannels frameCount 0 buffer)))"

section \<open>Transcript handlers\<close>

text \<open>
  The updater that \<open>onTranscriptUpdate\<close> passes to \<open>setTranscript\<close>: React applies it to
  the latest transcript.
\<close>

definition onTranscriptUpdate :: "Transcript \<Rightarrow> Transcript list \<Rightarrow> Transcript list" where
  "onTranscriptUpdate newTranscript prev =
     (let updated = prev;
          lastEntry = (if length updated > 0 then Some (updated ! (length updated - 1)) else None)
      in case lastEntry of
           Some l \<Rightarrow>
             if speaker l = speaker newTranscript \<and> \<not> isFinal l
             then updated[length updated - 1 := l\<lparr>text' := text' l @ text' newTranscript\<rparr>]
             else updated @ [newTranscript]
         | None \<Rightarrow> updated @ [newTranscript])"

definition onTurnComplete :: "Transcript list \<Rightarrow> Transcript list" where
  "onTurnComplete prev = map (\<lambda>t. t\<lparr>isFinal := True\<rparr>) prev"

text \<open>A run of fragments, each applied to the transcript the previous one left.\<close>

fun applyFragments :: "Transcript list \<Rightarrow> Transcript list \<Rightarrow> Transcript list" where
  "applyFragments prev [] = prev"
| "applyFragments prev (f # fs) = applyFragments (onTranscriptUpdate f prev) fs"

section \<open>The application state\<close>

text \<open>
  The values \<open>useState\<close> holds. A handler is a closure created during a render: the
  constants \<open>status\<close>, \<open>scenario\<close>, \<open>transcript\<close> and \<open>isNpcSpeaking\<close> it reads are those
  of that render, a \<open>react_state\<close> passed to it as a first argument \<open>r\<close>, while
  the setters and the refs act on the current state. The setters are applied in the
  order the handlers call them.
\<close>

record react_state =
  status :: ConversationStatus
  scenario :: "Scenario option"
  transcript :: "Transcript list"
  result :: "ConversationResult option"
  error :: "string option"
  isNpcSpeaking :: bool
  isRecording :: bool
  studyCardHint :: "StudyCardHint option"

text \<open>
  Objects of the platform (session, stream, nodes) are handles. What the application
  asks of the platform is recorded, in order, in a trace.
\<close>

type_synonym handle = nat

datatype AudioContextState = Suspended | Running | Closed

datatype effect =
    SessionClose handle
  | TrackStop handle
  | ProcessorDisconnect handle
  | MediaSourceDisconnect handle
  | InputContextClose
  | OutputContextResume
  | SourceStart handle real real
  | SourceStop handle
  | OutputContextClose
  | StreetViewHide
  | SummarizeCall Scenario "Transcript list"

text \<open>
  The refs of the component. \<open>streetViewInstance\<close> holds whether the panorama is
  visible; \<open>audioSourcesRef\<close> is the \<open>Set\<close> of source nodes in insertion order;
  \<open>nodesCreated\<close> numbers the nodes \<open>createBufferSource\<close> hands out.
\<close>

record app = react_state +
  streetViewInstance :: "bool option"
  liveSessionRef :: "handle option"
  inputAudioContextRef :: "AudioContextState option"
  outputAudioContextRef :: "AudioContextState option"
  nextStartTimeRef :: real
  scriptProcessorRef :: "handle option"
  localStreamRef :: "handle option"
  mediaStreamSourceRef :: "handle option"
  audioSourcesRef :: "handle list"
  nodesCreated :: nat
  trace :: "effect list"

text \<open>The state of the first render: the initial values of \<open>useState\<close> and \<open>useRef\<close>.\<close>

definition initialApp :: app where
  "initialApp =
     \<lparr>status = Idle, scenario = None, transcript = [], result = None, error = None,
      isNpcSpeaking = False, isRecording = False, studyCardHint = None,
      streetViewInstance = None, liveSessionRef = None, inputAudioContextRef = None,
      outputAudioContextRef = None, nextStartTimeRef = 0, scriptProcessorRef = None,
      localStreamRef = None, mediaStreamSourceRef = None, audioSourcesRef = [],
      nodesCreated = 0, trace = []\<rparr>"

definition emit :: "effect \<Rightarrow> app \<Rightarrow> app" where
  "emit e st = st\<lparr>trace := trace st @ [e]\<rparr>"

section \<open>Audio playback\<close>

text \<open>
  \<open>playAudioChunk\<close>, with \<open>now\<close> the \<open>currentTime\<close> of the output context when the chunk
  is scheduled. A failure of \<open>decode\<close> or \<open>decodeAudioData\<close> is caught and logged, and
  leaves the state as it is. \<open>start\<close> is called with a time that is not negative, so it
  does not raise. \<open>Math.max\<close> returns one of its arguments;
  \<open>nextStartTimeRef.current += audioBuffer.duration\<close> stores the sum rounded to a double.
\<close>

definition playAudioChunk :: "real \<Rightarrow> string \<Rightarrow> app \<Rightarrow> app" where
  "playAudioChunk now base64Audio st =
     (case outputAudioContextRef st of
        None \<Rightarrow> st
      | Some audioContext \<Rightarrow>
          if base64Audio = [] then st
          else
            (let st1 = (if audioContext = Suspended
                        then emit OutputContextResume (st\<lparr>outputAudioContextRef := Some Running\<rparr>)
                        else st)
             in case decode base64Audio of
                  Inl e \<Rightarrow> st1
                | Inr audioBytes \<Rightarrow>
                    (case decodeAudioData audioBytes 24000 1 of
                       Inl e \<Rightarrow> st1
                     | Inr audioBuffer \<Rightarrow>
                         (let start = max (nextStartTimeRef st1) now;
                              source = nodesCreated st1
                          in (emit (SourceStart source start (duration audioBuffer)) st1)
                               \<lparr>nodesCreated := Suc source,
                                audioSourcesRef := audioSourcesRef st1 @ [source],
                                nextStartTimeRef := to_double (start + duration audioBuffer)\<rparr>))))"

text \<open>The \<open>onended\<close> handler that \<open>playAudioChunk\<close> installs on the node \<open>source\<close>.\<close>

definition onended :: "handle \<Rightarrow> app \<Rightarrow> app" where
  "onended source st =
     (let st1 = st\<lparr>audioSourcesRef := removeAll source (audioSourcesRef st)\<rparr>
      in if length (audioSourcesRef st1) = 0 then st1\<lparr>isNpcSpeaking := False\<rparr> else st1)"

text \<open>\<open>onNpcAudio\<close>, a callback of the session opened during the render \<open>r\<close>.\<close>

definition onNpcAudio :: "react_state \<Rightarrow> real \<Rightarrow> string \<Rightarrow> app \<Rightarrow> app" where
  "onNpcAudio r now audioData st =
     playAudioChunk now audioData (if \<not> isNpcSpeaking r then st\<lparr>isNpcSpeaking := True\<rparr> else st)"

text \<open>Playback events: a chunk arriving at a time of the output clock, a node ending.\<close>

datatype playback_event = NpcAudio real string | SourceEnded handle

fun playback_step :: "react_state \<Rightarrow> app \<Rightarrow> playback_event \<Rightarrow> app" where
  "playback_step r st (NpcAudio now audioData) = onNpcAudio r now audioData st"
| "playback_step r st (SourceEnded source) = onended source st"

definition playback_run :: "react_state \<Rightarrow> playback_event list \<Rightarrow> app \<Rightarrow> app" where
  "playback_run r evs st = foldl (playback_step r) st evs"

text \<open>The chunks the trace has scheduled, as pairs of start time and duration.\<close>

fun schedule :: "effect list \<Rightarrow> (real \<times> real) list" where
  "schedule [] = []"
| "schedule (SourceStart h s d # es) = (s, d) # schedule es"
| "schedule (e # es) = schedule es"

text \<open>
  Each chunk starts no earlier than the previous one starts, and no earlier than the end
  that the code computes for the previous one: its start plus its duration, as a double.
\<close>

fun in_order :: "(real \<times> real) list \<Rightarrow> bool" where
  "in_order ((s1, d1) # (s2, d2) # rest) =
     (to_double (s1 + d1) \<le> s2 \<and> s1 \<le> s2 \<and> in_order ((s2, d2) # rest))"
| "in_order rest = True"

text \<open>
  \<open>currentTime\<close> is a double; it starts at \<open>0\<close> and never decreases. An event whose clock
  reading is such a value:
\<close>

fun clock_event :: "playback_event \<Rightarrow> bool" where
  "clock_event (NpcAudio now audioData) = (is_double now \<and> 0 \<le> now)"
| "clock_event (SourceEnded source) = True"

text \<open>A chunk that \<open>playAudioChunk\<close> schedules: not empty, and both decoders accept it.\<close>

definition decodable :: "string \<Rightarrow> bool" where
  "decodable base64Audio =
     (base64Audio \<noteq> [] \<and>
      (case decode base64Audio of
         Inl e \<Rightarrow> False
       | Inr audioBytes \<Rightarrow> (case decodeAudioData audioBytes 24000 1 of Inl e \<Rightarrow> False | Inr b \<Rightarrow> True)))"

fun decodable_event :: "playback_event \<Rightarrow> bool" where
  "decodable_event (NpcAudio now audioData) = decodable audioData"
| "decodable_event (SourceEnded source) = True"

section \<open>Teardown and the end of a conversation\<close>

text \<open>
  \<open>cleanupAudioAndSession\<close>, statement by statement. Each \<open>try\<close> block of the source only
  logs what it catches and goes on with the next statement, so the state it leaves is the
  same whether or not the guarded call raises. \<open>stop\<close> raises only on a node that was
  never started, and every node of \<open>audioSourcesRef\<close> was started by \<open>playAudioChunk\<close>.
\<close>

definition closeSession :: "app \<Rightarrow> app" where
  "closeSession st =
     (case liveSessionRef st of Some h \<Rightarrow> emit (SessionClose h) st | None \<Rightarrow> st)
       \<lparr>liveSessionRef := None\<rparr>"

definition stopTracks :: "app \<Rightarrow> app" where
  "stopTracks st =
     (case localStreamRef st of
        Some h \<Rightarrow> (emit (TrackStop h) st)\<lparr>localStreamRef := None\<rparr>
      | None \<Rightarrow> st)"

definition disconnectProcessor :: "app \<Rightarrow> app" where
  "disconnectProcessor st =
     (case scriptProcessorRef st of Some h \<Rightarrow> emit (ProcessorDisconnect h) st | None \<Rightarrow> st)
       \<lparr>scriptProcessorRef := None\<rparr>"

definition disconnectMediaSource :: "app \<Rightarrow> app" where
  "disconnectMediaSource st =
     (case mediaStreamSourceRef st of Some h \<Rightarrow> emit (MediaSourceDisconnect h) st | None \<Rightarrow> st)
       \<lparr>mediaStreamSourceRef := None\<rparr>"

definition closeInputContext :: "app \<Rightarrow> app" where
  "closeInputContext st =
     (case inputAudioContextRef st of
        Some c \<Rightarrow> if c \<noteq> Closed then emit InputContextClose st else st
      | None \<Rightarrow> st)
       \<lparr>inputAudioContextRef := None\<rparr>"

fun stopSources :: "handle list \<Rightarrow> app \<Rightarrow> app" where
  "stopSources [] st = st"
| "stopSources (source # sources) st = stopSources sources (emit (SourceStop source) st)"

definition stopAudioSources :: "app \<Rightarrow> app" where
  "stopAudioSources st = (stopSources (audioSourcesRef st) st)\<lparr>audioSourcesRef := []\<rparr>"

definition closeOutputContext :: "app \<Rightarrow> app" where
  "closeOutputContext st =
     (case outputAudioContextRef st of
        Some c \<Rightarrow> if c \<noteq> Closed then emit OutputContextClose st else st
      | None \<Rightarrow> st)
       \<lparr>outputAudioContextRef := None\<rparr>"

definition cleanupAudioAndSession :: "app \<Rightarrow> app" where
  "cleanupAudioAndSession st =
     (closeOutputContext (stopAudioSources (closeInputContext (disconnectMediaSource
        (disconnectProcessor (stopTracks (closeSession st)))))))
       \<lparr>isRecording := False, isNpcSpeaking := False\<rparr>"

text \<open>\<open>handleCloseRehearsal\<close>: teardown, the panorama hidden if it shows, the state reset.\<close>

definition handleCloseRehearsal :: "app \<Rightarrow> app" where
  "handleCloseRehearsal st =
     (let st1 = cleanupAudioAndSession st;
          st2 = (case streetViewInstance st1 of
                   Some visible \<Rightarrow>
                     if visible then (emit StreetViewHide st1)\<lparr>streetViewInstance := Some False\<rparr>
                     else st1
                 | None \<Rightarrow> st1)
      in st2\<lparr>status := Idle, scenario := None, transcript := [], result := None,
             error := None, studyCardHint := None\<rparr>)"

text \<open>
  \<open>handleEndConversation\<close> up to its \<open>await\<close>: the call of \<open>summarizeConversation\<close> is the
  last thing it does before it suspends. \<open>summarizeSettled\<close> is what it does when the
  promise settles, with the summary or with a failure.
\<close>

definition handleEndConversation :: "react_state \<Rightarrow> app \<Rightarrow> app" where
  "handleEndConversation r st =
     (if status r = Summarizing then st
      else
        (let st1 = cleanupAudioAndSession (st\<lparr>status := Summarizing\<rparr>)
         in case scenario r of
              None \<Rightarrow> handleCloseRehearsal st1
            | Some sc \<Rightarrow>
                if length (transcript r) = 0 then handleCloseRehearsal st1
                else emit (SummarizeCall sc (transcript r)) st1))"

definition summarizeSettled :: "ConversationResult option \<Rightarrow> app \<Rightarrow> app" where
  "summarizeSettled outcome st =
     (case outcome of
        Some summaryResult \<Rightarrow> st\<lparr>result := Some summaryResult, status := PausedForFeedback\<rparr>
      | None \<Rightarrow> st\<lparr>error := Some ''Failed to get feedback on the conversation.'',
                     status := Error\<rparr>)"

text \<open>\<open>onClose\<close>, a callback of the session opened during the render \<open>r\<close>.\<close>

definition onClose :: "react_state \<Rightarrow> app \<Rightarrow> app" where
  "onClose r st =
     (if status r = Active then handleEndConversation r st else cleanupAudioAndSession st)"

text \<open>The summarization calls of a trace, in order.\<close>

fun summarizeCalls :: "effect list \<Rightarrow> (Scenario \<times> Transcript list) list" where
  "summarizeCalls [] = []"
| "summarizeCalls (SummarizeCall sc ts # es) = (sc, ts) # summarizeCalls es"
| "summarizeCalls (e # es) = summarizeCalls es"

text \<open>The nodes a trace has stopped, in order.\<close>

fun stopped :: "effect list \<Rightarrow> handle list" where
  "stopped [] = []"
| "stopped (SourceStop h # es) = h # stopped es"
| "stopped (e # es) = stopped es"

text \<open>The state of a render: what a closure created now would read.\<close>

definition render :: "app \<Rightarrow> react_state" where
  "render st = react_state.truncate st"

text \<open>
  Every scheduled chunk but the last is covered by \<open>in_order\<close>; \<open>ends_by sched t\<close> says
  that the last one starts no later than \<open>t\<close>, and that its computed end is no later
  than \<open>t\<close>. \<open>scheduled_by sched t\<close> is what holds of the schedule and of
  \<open>nextStartTimeRef\<close> between two events.
\<close>

fun ends_by :: "(real \<times> real) list \<Rightarrow> real \<Rightarrow> bool" where
  "ends_by [] t = True"
| "ends_by [(s, d)] t = (to_double (s + d) \<le> t \<and> s \<le> t)"
| "ends_by (x # y # rest) t = ends_by (y # rest) t"

definition scheduled_by :: "(real \<times> real) list \<Rightarrow> real \<Rightarrow> bool" where
  "scheduled_by sched t = (in_order sched \<and> ends_by sched t \<and> is_double t \<and> 0 \<le> t)"

text \<open>
  What \<open>cleanupAudioAndSession\<close> asks of the platform in a state, in the order of its
  statements.
\<close>

definition teardownEffects :: "app \<Rightarrow> effect list" where
  "teardownEffects st =
     (case liveSessionRef st of Some h \<Rightarrow> [SessionClose h] | None \<Rightarrow> [])
     @ (case localStreamRef st of Some h \<Rightarrow> [TrackStop h] | None \<Rightarrow> [])
     @ (case scriptProcessorRef st of Some h \<Rightarrow> [ProcessorDisconnect h] | None \<Rightarrow> [])
     @ (case mediaStreamSourceRef st of Some h \<Rightarrow> [MediaSourceDisconnect h] | None \<Rightarrow> [])
     @ (case inputAudioContextRef st of
          Some c \<Rightarrow> if c \<noteq> Closed then [InputContextClose] else [] | None \<Rightarrow> [])
     @ map SourceStop (audioSourcesRef st)
     @ (case outputAudioContextRef st of
          Some c \<Rightarrow> if c \<noteq> Closed then [OutputContextClose] else [] | None \<Rightarrow> [])"

text \<open>A scenario, and a conversation in progress with everything open.\<close>

definition exampleScenario :: Scenario where
  "exampleScenario =
     \<lparr>locationName = ''Cafe'', locationType = ''cafe'', task = ''Order a coffee'',
      npcProfile = \<lparr>name = ''Aiko'', gender = Female, voice = ''Kore'',
        languagePrimary = ''Japanese'', languageSecondary = Some ''English'',
        fluencyPrimary = High, fluencySecondary = Some Low, patience = Medium,
        helpfulness = High, accent = Local, quirk = ''hums''\<rparr>,
      sceneDescription = ''A small cafe'', conversationStarter = User, openingLine = None\<rparr>"

definition activeApp :: app where
  "activeApp = initialApp
     \<lparr>status := Active, scenario := Some exampleScenario,
      transcript := [\<lparr>speaker = User, text' = ''Hello'', isFinal = True, imageUrl = None\<rparr>],
      streetViewInstance := Some True, liveSessionRef := Some 0,
      inputAudioContextRef := Some Running, outputAudioContextRef := Some Running,
      scriptProcessorRef := Some 1, localStreamRef := Some 2, mediaStreamSourceRef := Some 3\<rparr>"

section \<open>The transcript\<close>

lemma onTranscriptUpdate_push:
  "prev = [] \<or> isFinal (last prev) \<or> speaker (last prev) \<noteq> speaker f
   \<Longrightarrow> onTranscriptUpdate f prev = prev @ [f]"
  by (auto simp: onTranscriptUpdate_def Let_def last_conv_nth)

lemma onTranscriptUpdate_merge:
  "speaker e = speaker f \<Longrightarrow> \<not> isFinal e
   \<Longrightarrow> onTranscriptUpdate f (prev @ [e]) = prev @ [e\<lparr>text' := text' e @ text' f\<rparr>]"
  by (simp add: onTranscriptUpdate_def Let_def)

text \<open>
  While the last entry is open, every further fragment of its speaker grows it in place.
  The entry is generalised: each step replaces it.
\<close>

lemma applyFragments_open_tail:
  "\<not> isFinal e \<Longrightarrow> \<forall>f\<in>set fs. speaker f = speaker e
   \<Longrightarrow> applyFragments (prev @ [e]) fs = prev @ [e\<lparr>text' := text' e @ concat (map text' fs)\<rparr>]"
proof (induction fs arbitrary: e)
  case Nil
  then show ?case by simp
next
  case (Cons f fs)
  let ?e' = "e\<lparr>text' := text' e @ text' f\<rparr>"
  have step: "onTranscriptUpdate f (prev @ [e]) = prev @ [?e']"
    using Cons.prems by (simp add: onTranscriptUpdate_merge)
  have "applyFragments (prev @ [?e']) fs = prev @ [?e'\<lparr>text' := text' ?e' @ concat (map text' fs)\<rparr>]"
    using Cons.prems by (intro Cons.IH) simp_all
  then show ?case by (simp add: step)
qed

text \<open>
  C4. A run of one or more partial fragments of one speaker \<open>s\<close>, applied to a transcript
  whose last entry is absent, final or of another speaker, adds exactly one entry: the
  first fragment with the texts of all fragments concatenated in arrival order; the entry
  is not final and belongs to \<open>s\<close>. And any fragment \<open>g\<close> that meets a transcript \<open>p\<close>
  which is empty, ends in a final entry or ends in an entry of another speaker is pushed
  as a new entry.
\<close>

theorem same_speaker_fragments_one_entry:
  assumes "fs \<noteq> []"
    and "\<forall>f\<in>set fs. speaker f = s \<and> \<not> isFinal f"
    and "prev = [] \<or> isFinal (last prev) \<or> speaker (last prev) \<noteq> s"
  shows "applyFragments prev fs = prev @ [(hd fs)\<lparr>text' := concat (map text' fs)\<rparr>]
         \<and> \<not> isFinal ((hd fs)\<lparr>text' := concat (map text' fs)\<rparr>)
         \<and> speaker ((hd fs)\<lparr>text' := concat (map text' fs)\<rparr>) = s
         \<and> (p = [] \<or> isFinal (last p) \<or> speaker (last p) \<noteq> speaker g
               \<longrightarrow> onTranscriptUpdate g p = p @ [g])"
proof -
  from assms(1) obtain f fs' where fs: "fs = f # fs'" by (cases fs) auto
  have f: "speaker f = s" "\<not> isFinal f" and rest: "\<forall>g\<in>set fs'. speaker g = speaker f"
    using assms(2) by (auto simp: fs)
  have "onTranscriptUpdate f prev = prev @ [f]"
    using assms(3) f by (intro onTranscriptUpdate_push) auto
  then have "applyFragments prev fs = prev @ [f\<lparr>text' := text' f @ concat (map text' fs')\<rparr>]"
    using applyFragments_open_tail [OF f(2) rest] by (simp add: fs)
  then show ?thesis using f by (simp add: fs onTranscriptUpdate_push)
qed

text \<open>
  The theorem at work: after a final line of the character, the user's ``Bon'' and
  ``jour'' become one open entry ``Bonjour''; a fragment of the character then starts a
  new entry although the user's entry is still open.
\<close>

theorem same_speaker_fragments_one_entry_witness:
  "applyFragments
     [\<lparr>speaker = Npc, text' = ''Salut'', isFinal = True, imageUrl = None\<rparr>]
     [\<lparr>speaker = User, text' = ''Bon'', isFinal = False, imageUrl = None\<rparr>,
      \<lparr>speaker = User, text' = ''jour'', isFinal = False, imageUrl = None\<rparr>]
   = [\<lparr>speaker = Npc, text' = ''Salut'', isFinal = True, imageUrl = None\<rparr>,
      \<lparr>speaker = User, text' = ''Bonjour'', isFinal = False, imageUrl = None\<rparr>]
   \<and> onTranscriptUpdate \<lparr>speaker = Npc, text' = ''Oui'', isFinal = False, imageUrl = None\<rparr>
       [\<lparr>speaker = User, text' = ''Bonjour'', isFinal = False, imageUrl = None\<rparr>]
     = [\<lparr>speaker = User, text' = ''Bonjour'', isFinal = False, imageUrl = None\<rparr>,
        \<lparr>speaker = Npc, text' = ''Oui'', isFinal = False, imageUrl = None\<rparr>]"
proof -
  let ?prev = "[\<lparr>speaker = Npc, text' = ''Salut'', isFinal = True, imageUrl = None\<rparr>]"
  let ?fs = "[\<lparr>speaker = User, text' = ''Bon'', isFinal = False, imageUrl = None\<rparr>,
              \<lparr>speaker = User, text' = ''jour'', isFinal = False, imageUrl = None\<rparr>]"
  let ?p = "[\<lparr>speaker = User, text' = ''Bonjour'', isFinal = False, imageUrl = None\<rparr>]"
  let ?g = "\<lparr>speaker = Npc, text' = ''Oui'', isFinal = False, imageUrl = None\<rparr>"
  have h1: "?fs \<noteq> []" by simp
  have h2: "\<forall>f\<in>set ?fs. speaker f = User \<and> \<not> isFinal f" by simp
  have h3: "?prev = [] \<or> isFinal (last ?prev) \<or> speaker (last ?prev) \<noteq> User" by simp
  show ?thesis
    using same_speaker_fragments_one_entry [OF h1 h2 h3, of ?p ?g] by simp
qed

text \<open>
  C5. The turn-complete handler leaves every entry of the transcript final, the earlier
  entries as well as the last, and applying it a second time changes nothing.
\<close>

theorem onTurnComplete_finalizes_all:
  "map isFinal (onTurnComplete ts) = replicate (length ts) True
   \<and> onTurnComplete (onTurnComplete ts) = onTurnComplete ts"
  by (simp add: onTurnComplete_def map_replicate_const comp_def)

text \<open>
  C9. The turn-complete handler keeps the number of entries and, entry by entry, the
  speaker, the text and the image reference.
\<close>

theorem onTurnComplete_frame:
  "length (onTurnComplete ts) = length ts
   \<and> map speaker (onTurnComplete ts) = map speaker ts
   \<and> map text' (onTurnComplete ts) = map text' ts
   \<and> map imageUrl (onTurnComplete ts) = map imageUrl ts"
  by (simp add: onTurnComplete_def comp_def)

section \<open>The audio codec\<close>

text \<open>
  The loops are unfolded one step at a time, by \<open>subst\<close>, never by the simplifier.
\<close>

declare createBlob_loop.simps [simp del] decode_frames.simps [simp del]
  decode_channels.simps [simp del]

subsection \<open>The loops in closed form\<close>

lemma createBlob_loop_eq:
  "length int16 = length samples \<Longrightarrow> i \<le> length samples \<Longrightarrow>
   createBlob_loop samples i int16
     = take i int16 @ map (\<lambda>x. toInt16 (times32768 x)) (drop i samples)"
proof (induction samples i int16 rule: createBlob_loop.induct)
  case (1 samples i int16)
  show ?case
  proof (cases "i < length samples")
    case True
    let ?v = "toInt16 (times32768 (samples ! i))"
    have a: "createBlob_loop samples i int16 = createBlob_loop samples (Suc i) (int16[i := ?v])"
      using True by (subst createBlob_loop.simps) simp
    have b: "createBlob_loop samples (Suc i) (int16[i := ?v])
        = take (Suc i) (int16[i := ?v]) @ map (\<lambda>x. toInt16 (times32768 x)) (drop (Suc i) samples)"
      using True "1.prems" by (intro "1.IH") simp_all
    have c: "take (Suc i) (int16[i := ?v]) = take i int16 @ [?v]"
      using True "1.prems" by (simp add: take_Suc_conv_app_nth)
    have d: "drop i samples = samples ! i # drop (Suc i) samples"
      using True by (simp add: Cons_nth_drop_Suc)
    show ?thesis unfolding a b c d by simp
  next
    case False
    then show ?thesis using "1.prems" by (subst createBlob_loop.simps) simp
  qed
qed

lemma createBlob_loop_map:
  "createBlob_loop samples 0 (replicate (length samples) 0)
     = map (\<lambda>x. toInt16 (times32768 x)) samples"
  by (simp add: createBlob_loop_eq)

lemma encode_loop_eq: "encode_loop bytes binary = binary @ map (\<lambda>b. char_of (unat b)) bytes"
  by (induction bytes arbitrary: binary) simp_all

lemma decode_frames_eq:
  "length samples = frameCount \<Longrightarrow> i \<le> frameCount \<Longrightarrow>
   decode_frames dataInt16 numChannels frameCount channel i samples
     = take i samples @ map (\<lambda>j. sample_of dataInt16 (j * numChannels + channel)) [i..<frameCount]"
proof (induction dataInt16 numChannels frameCount channel i samples rule: decode_frames.induct)
  case (1 dataInt16 numChannels frameCount channel i samples)
  show ?case
  proof (cases "i < frameCount")
    case True
    let ?v = "sample_of dataInt16 (i * numChannels + channel)"
    have a: "decode_frames dataInt16 numChannels frameCount channel i samples
        = decode_frames dataInt16 numChannels frameCount channel (Suc i) (samples[i := ?v])"
      using True by (subst decode_frames.simps) simp
    have b: "decode_frames dataInt16 numChannels frameCount channel (Suc i) (samples[i := ?v])
        = take (Suc i) (samples[i := ?v])
          @ map (\<lambda>j. sample_of dataInt16 (j * numChannels + channel)) [Suc i..<frameCount]"
      using True "1.prems" by (intro "1.IH") simp_all
    have c: "take (Suc i) (samples[i := ?v]) = take i samples @ [?v]"
      using True "1.prems" by (simp add: take_Suc_conv_app_nth)
    have d: "[i..<frameCount] = i # [Suc i..<frameCount]"
      using True by (simp add: upt_conv_Cons)
    show ?thesis unfolding a b c d by simp
  next
    case False
    then show ?thesis using "1.prems" by (subst decode_frames.simps) simp
  qed
qed

lemma decode_channels_eq:
  "length (channelData buffer) = numChannels \<Longrightarrow> channel \<le> numChannels \<Longrightarrow>
   \<forall>c\<in>set (channelData buffer). length c = frameCount \<Longrightarrow>
   decode_channels dataInt16 numChannels frameCount channel buffer
     = buffer\<lparr>channelData := take channel (channelData buffer)
         @ map (\<lambda>c. map (\<lambda>j. sample_of dataInt16 (j * numChannels + c)) [0..<frameCount])
             [channel..<numChannels]\<rparr>"
proof (induction dataInt16 numChannels frameCount channel buffer rule: decode_channels.induct)
  case (1 dataInt16 numChannels frameCount channel buffer)
  show ?case
  proof (cases "channel < numChannels")
    case True
    let ?row = "map (\<lambda>j. sample_of dataInt16 (j * numChannels + channel)) [0..<frameCount]"
    let ?b = "buffer\<lparr>channelData := (channelData buffer)[channel := ?row]\<rparr>"
    have len: "length (channelData buffer ! channel) = frameCount"
      using True "1.prems" by simp
    have row: "decode_frames dataInt16 numChannels frameCount channel 0
                 (channelData buffer ! channel) = ?row"
      using len by (simp add: decode_frames_eq)
    have a: "decode_channels dataInt16 numChannels frameCount channel buffer
        = decode_channels dataInt16 numChannels frameCount (Suc channel) ?b"
      using True by (subst decode_channels.simps) (simp add: row)
    have lens: "\<forall>c\<in>set (channelData ?b). length c = frameCount"
    proof
      fix c assume "c \<in> set (channelData ?b)"
      then have "c \<in> insert ?row (set (channelData buffer))"
        using set_update_subset_insert [of "channelData buffer" channel ?row] by auto
      then show "length c = frameCount" using "1.prems"(3) by auto
    qed
    have ih: "decode_channels dataInt16 numChannels frameCount (Suc channel) ?b
        = ?b\<lparr>channelData := take (Suc channel) (channelData ?b)
            @ map (\<lambda>c. map (\<lambda>j. sample_of dataInt16 (j * numChannels + c)) [0..<frameCount])
                [Suc channel..<numChannels]\<rparr>"
      using "1.IH" [OF True] True "1.prems"(1) lens unfolding row by simp
    have c: "take (Suc channel) (channelData ?b) = take channel (channelData buffer) @ [?row]"
      using True "1.prems" by (simp add: take_Suc_conv_app_nth)
    have d: "[channel..<numChannels] = channel # [Suc channel..<numChannels]"
      using True by (simp add: upt_conv_Cons)
    show ?thesis unfolding a ih c d by simp
  next
    case False
    then show ?thesis using "1.prems" by (subst decode_channels.simps) simp
  qed
qed

subsection \<open>Elements and bytes\<close>

lemma sint_word16_of_int: "sint (word_of_int k :: int16) = (k + 32768) mod 65536 - 32768"
  by (simp add: sint_uint signed_take_bit_eq_take_bit_shift take_bit_eq_mod uint_word_of_int
      mod_add_left_eq)

lemma trunc_of_int: "trunc (real_of_int k) = k"
  by (simp add: trunc_def)

lemma trunc_signed: "trunc (signed w) = sint w"
  using trunc_of_int [of "sint w"] by (simp only: of_int_sint)

lemma toInt16_sample:
  "toInt16 (times32768 (Finite (real_of_int (sint (w :: int16)) / 32768))) = w"
  by (simp add: trunc_signed)

lemma low_byte: "ucast (push_bit 8 (ucast (hi :: byte)) OR ucast (lo :: byte) :: int16) = lo"
  by (rule bit_word_eqI) (auto simp: bit_simps)

lemma high_byte:
  "ucast (drop_bit 8 (push_bit 8 (ucast (hi :: byte)) OR ucast (lo :: byte) :: int16)) = hi"
  by (rule bit_word_eqI) (auto simp: bit_simps dest: bit_imp_le_length)

lemma uint8_int16_view: "even (length bs) \<Longrightarrow> uint8_view (int16_view bs) = bs"
proof (induction bs rule: int16_view.induct)
  case (1 lo hi bs)
  then show ?case by (simp only: int16_view.simps uint8_view.simps low_byte high_byte) simp
qed simp_all

lemma length_int16_view: "length (int16_view bs) = length bs div 2"
  by (induction bs rule: int16_view.induct) simp_all

lemma low_byte_sint: "(ucast (w :: int16) :: byte) = word_of_int (sint w)"
  by (rule bit_word_eqI) (auto simp: bit_simps)

lemma high_byte_sint: "(ucast (drop_bit 8 (w :: int16)) :: byte) = word_of_int (sint w div 256)"
proof -
  have "sint w div 256 = drop_bit 8 (sint w)"
    by (simp add: drop_bit_eq_div)
  then show ?thesis
    by (simp only:) (rule bit_word_eqI, auto simp: bit_simps)
qed

lemma uint8_view_le16: "uint8_view ws = concat (map (\<lambda>w. le16 (sint w)) ws)"
proof (induction ws)
  case Nil
  show ?case by simp
next
  case (Cons w ws)
  have "uint8_view (w # ws) = le16 (sint w) @ uint8_view ws"
    unfolding uint8_view.simps high_byte_sint by (simp add: le16_def low_byte_sint)
  then show ?case by (simp add: Cons.IH)
qed

lemma trunc_bounds:
  assumes "- 1 \<le> x" "x < 1"
  shows "- 32768 \<le> trunc (x * 32768)" "trunc (x * 32768) < 32768"
proof -
  have lo: "- 32768 \<le> x * 32768" and hi: "x * 32768 < 32768" using assms by simp_all
  show "- 32768 \<le> trunc (x * 32768)"
    using lo by (auto simp: trunc_def le_floor_iff le_ceiling_iff intro: order_trans)
  show "trunc (x * 32768) < 32768"
    using hi by (auto simp: trunc_def floor_less_iff ceiling_less_iff)
qed

lemma quantize_Finite: "quantize (Finite x) = (trunc (x * 32768) + 32768) mod 65536 - 32768"
  by (simp add: quantize_def sint_word16_of_int)

lemma quantize_in_range:
  assumes "- 1 \<le> x" "x < 1"
  shows "quantize (Finite x) = trunc (x * 32768)"
  using trunc_bounds [OF assms] by (simp add: quantize_Finite)


subsection \<open>Base64\<close>

lemma b64_digit_b64_char: "b64_digit (b64_char n) = Some (n mod 64)"
  by (auto simp add: b64_digit_def b64_char_def Let_def)

lemma b64_digit_Some:
  "b64_digit c = Some k \<Longrightarrow> \<not> ascii_whitespace c \<and> c \<noteq> CHR ''=''"
  by (auto simp add: b64_digit_def ascii_whitespace_def Let_def split: if_splits)

lemma b64_char_plain: "\<not> ascii_whitespace (b64_char n)" "b64_char n \<noteq> CHR ''=''"
  using b64_digit_Some [OF b64_digit_b64_char [of n]] by simp_all

lemma of_char_less: "(of_char c :: nat) < 256"
proof -
  have "(of_char c :: nat) mod 256 < 256" by simp
  then show ?thesis by (simp only: of_char_mod_256)
qed

lemma regroup4:
  assumes "n < (16777216 :: nat)"
  shows "(n div 262144) mod 64 * 262144 + (n div 4096) mod 64 * 4096 + (n div 64) mod 64 * 64
           + n mod 64 = n"
proof -
  have a: "n mod 4096 = 64 * (n div 64 mod 64) + n mod 64"
    using mod_mult2_eq [of n 64 64] by simp
  have b: "n mod 262144 = 4096 * (n div 4096 mod 64) + n mod 4096"
    using mod_mult2_eq [of n 4096 64] by simp
  have c: "n mod 16777216 = 262144 * (n div 262144 mod 64) + n mod 262144"
    using mod_mult2_eq [of n 262144 64] by simp
  have "n mod 16777216 = n" using assms by simp
  then show ?thesis using a b c by linarith
qed

lemma regroup3:
  assumes "n < (262144 :: nat)"
  shows "(n div 4096) mod 64 * 4096 + (n div 64) mod 64 * 64 + n mod 64 = n"
proof -
  have a: "n mod 4096 = 64 * (n div 64 mod 64) + n mod 64"
    using mod_mult2_eq [of n 64 64] by simp
  have b: "n mod 262144 = 4096 * (n div 4096 mod 64) + n mod 4096"
    using mod_mult2_eq [of n 4096 64] by simp
  have "n mod 262144 = n" using assms by simp
  then show ?thesis using a b by linarith
qed

lemma regroup2:
  assumes "n < (4096 :: nat)"
  shows "(n div 64) mod 64 * 64 + n mod 64 = n"
proof -
  have a: "n mod 4096 = 64 * (n div 64 mod 64) + n mod 64"
    using mod_mult2_eq [of n 64 64] by simp
  have "n mod 4096 = n" using assms by simp
  then show ?thesis using a by linarith
qed

lemma char_of_shift: "char_of (x * 256 + of_char c :: nat) = c"
proof -
  have "char_of (x * 256 + of_char c :: nat) = char_of (of_char c :: nat)"
    by (simp only: char_of_quasi_inj) simp
  also have "\<dots> = c" by (rule char_of_char)
  finally show ?thesis .
qed

lemma div_numeral_shift: "r < m \<Longrightarrow> (q * m + r) div m = (q :: nat)"
  by simp

text \<open>Three bytes, their four digits, and the three bytes again.\<close>

lemma atob_groups_full:
  "atob_groups
     ((((of_char a :: nat) * 65536 + of_char b * 256 + of_char c) div 262144) mod 64
      # ((of_char a * 65536 + of_char b * 256 + of_char c) div 4096) mod 64
      # ((of_char a * 65536 + of_char b * 256 + of_char c) div 64) mod 64
      # (of_char a * 65536 + of_char b * 256 + of_char c) mod 64 # ds)
   = a # b # c # atob_groups ds"
proof -
  define n where "n = (of_char a :: nat) * 65536 + of_char b * 256 + of_char c"
  have lt: "n < 16777216"
    using of_char_less [of a] of_char_less [of b] of_char_less [of c] unfolding n_def
    by linarith
  have r: "(of_char b :: nat) * 256 + of_char c < 65536"
    using of_char_less [of b] of_char_less [of c] by linarith
  have "n div 65536 = of_char a"
    using div_numeral_shift [OF r, of "of_char a"] by (simp add: n_def add.assoc)
  then have c1: "char_of (n div 65536) = a" by simp
  have "n div 256 = of_char a * 256 + of_char b"
    using div_numeral_shift [OF of_char_less [of c], of "of_char a * 256 + of_char b"]
    by (simp add: n_def)
  then have c2: "char_of (n div 256) = b" by (simp only: char_of_shift)
  have "n = (of_char a * 256 + of_char b) * 256 + of_char c" by (simp add: n_def)
  then have c3: "char_of n = c" by (simp only: char_of_shift)
  have "atob_groups ((n div 262144) mod 64 # (n div 4096) mod 64 # (n div 64) mod 64
           # n mod 64 # ds) = a # b # c # atob_groups ds"
    by (simp add: regroup4 [OF lt] Let_def c1 c2 c3)
  then show ?thesis by (simp only: n_def)
qed

lemma atob_groups_two:
  "atob_groups
     [(((of_char a :: nat) * 1024 + of_char b * 4) div 4096) mod 64,
      ((of_char a * 1024 + of_char b * 4) div 64) mod 64,
      (of_char a * 1024 + of_char b * 4) mod 64]
   = [a, b]"
proof -
  define n where "n = (of_char a :: nat) * 1024 + of_char b * 4"
  have lt: "n < 262144"
    using of_char_less [of a] of_char_less [of b] unfolding n_def by linarith
  have r: "(of_char b :: nat) * 4 < 1024"
    using of_char_less [of b] by linarith
  have "n div 1024 = of_char a"
    using div_numeral_shift [OF r, of "of_char a"] by (simp add: n_def)
  then have c1: "char_of (n div 1024) = a" by simp
  have "n = (of_char a * 256 + of_char b) * 4" by (simp add: n_def)
  then have "n div 4 = of_char a * 256 + of_char b" by simp
  then have c2: "char_of (n div 4) = b" by (simp only: char_of_shift)
  have "atob_groups [(n div 4096) mod 64, (n div 64) mod 64, n mod 64] = [a, b]"
    by (simp add: regroup3 [OF lt] Let_def c1 c2)
  then show ?thesis by (simp only: n_def)
qed

lemma atob_groups_one:
  "atob_groups [(((of_char a :: nat) * 16) div 64) mod 64, (of_char a * 16) mod 64] = [a]"
proof -
  define n where "n = (of_char a :: nat) * 16"
  have lt: "n < 4096" using of_char_less [of a] unfolding n_def by linarith
  have "(n div 64 mod 64 * 64 + n mod 64) div 16 = of_char a"
    by (simp add: regroup2 [OF lt]) (simp add: n_def)
  then have "atob_groups [(n div 64) mod 64, n mod 64] = [a]" by simp
  then show ?thesis by (simp only: n_def)
qed

lemma length_btoa: "length (btoa s) mod 4 = 0"
  by (induction s rule: btoa.induct) (simp_all add: Let_def)

lemma filter_btoa: "filter (\<lambda>c. \<not> ascii_whitespace c) (btoa s) = btoa s"
proof (induction s rule: btoa.induct)
  case (1 a b c rest)
  then show ?case by (simp add: Let_def b64_char_plain)
qed (simp_all add: Let_def b64_char_plain, simp_all add: ascii_whitespace_def)

lemma length_group: "length (c1 # c2 # c3 # c4 # t) mod 4 = length t mod 4"
proof -
  have "length (c1 # c2 # c3 # c4 # t) = 4 + length t" by simp
  then show ?thesis by (simp only: mod_add_self1)
qed

lemma strip_padding_group:
  assumes "length t mod 4 = 0" and "c4 \<noteq> CHR ''=''"
  shows "strip_padding (c1 # c2 # c3 # c4 # t) = c1 # c2 # c3 # c4 # strip_padding t"
proof (cases "t = []")
  case True
  then show ?thesis using assms(2) by (simp add: strip_padding_def)
next
  case False
  have len: "length (c1 # c2 # c3 # c4 # t) mod 4 = 0"
    using assms(1) by simp
  have "length t \<noteq> 1" using assms(1) by auto
  then have two: "butlast t \<noteq> []"
    using False by (cases t rule: rev_cases) auto
  have l: "last (c1 # c2 # c3 # c4 # t) = last t"
    and b: "butlast (c1 # c2 # c3 # c4 # t) = c1 # c2 # c3 # c4 # butlast t"
    and lb: "last (c1 # c2 # c3 # c4 # butlast t) = last (butlast t)"
    and bb: "butlast (c1 # c2 # c3 # c4 # butlast t) = c1 # c2 # c3 # c4 # butlast (butlast t)"
    using False two by simp_all
  show ?thesis
    unfolding strip_padding_def len l b lb bb
    using False two assms(1) by simp
qed

lemma atob_group:
  assumes "atob (btoa rest) = Some rest"
  shows "atob (btoa (a # b # c # rest)) = Some (a # b # c # rest)"
proof -
  let ?n = "(of_char a :: nat) * 65536 + of_char b * 256 + of_char c"
  let ?d = "strip_padding (btoa rest)"
  have "(if length ?d mod 4 = 1 then None
         else map_option atob_groups (those (map b64_digit ?d))) = Some rest"
    using assms by (simp add: atob_def filter_btoa Let_def)
  then have tail: "length ?d mod 4 \<noteq> 1"
    and "map_option atob_groups (those (map b64_digit ?d)) = Some rest"
    by (simp_all split: if_splits)
  then obtain ds where ds: "those (map b64_digit ?d) = Some ds" "atob_groups ds = rest"
    by auto
  have strip: "strip_padding (btoa (a # b # c # rest))
      = b64_char (?n div 262144) # b64_char (?n div 4096) # b64_char (?n div 64) # b64_char ?n # ?d"
    by (simp add: Let_def strip_padding_group length_btoa b64_char_plain)
  have len: "length (strip_padding (btoa (a # b # c # rest))) mod 4 \<noteq> 1"
    using tail by (simp only: strip length_group) simp
  have digits: "those (map b64_digit (strip_padding (btoa (a # b # c # rest))))
      = Some ((?n div 262144) mod 64 # (?n div 4096) mod 64 # (?n div 64) mod 64 # ?n mod 64 # ds)"
    by (simp only: strip) (simp add: b64_digit_b64_char ds)
  have "atob (btoa (a # b # c # rest))
      = map_option atob_groups (those (map b64_digit (strip_padding (btoa (a # b # c # rest)))))"
    unfolding atob_def Let_def filter_btoa using len by simp
  then show ?thesis
    by (simp only: digits atob_groups_full ds option.map)
qed

text \<open>\<open>atob\<close> undoes \<open>btoa\<close>, and \<open>decode\<close> undoes \<open>encode\<close>.\<close>

lemma atob_btoa: "atob (btoa s) = Some s"
proof (induction s rule: btoa.induct)
  case (1 a b c rest)
  have "atob (btoa rest) = Some rest" by (rule "1") (rule refl)
  then show ?case by (rule atob_group)
next
  case (2 a b)
  let ?n = "(of_char a :: nat) * 1024 + of_char b * 4"
  have "strip_padding (btoa [a, b]) = [b64_char (?n div 4096), b64_char (?n div 64), b64_char ?n]"
    by (simp add: Let_def strip_padding_def b64_char_plain)
  then have "atob (btoa [a, b])
      = map_option atob_groups (Some [(?n div 4096) mod 64, (?n div 64) mod 64, ?n mod 64])"
    unfolding atob_def Let_def filter_btoa by (simp add: b64_digit_b64_char)
  then show ?case by (simp only: atob_groups_two option.map)
next
  case (3 a)
  let ?n = "(of_char a :: nat) * 16"
  have "strip_padding (btoa [a]) = [b64_char (?n div 64), b64_char ?n]"
    by (simp add: Let_def strip_padding_def b64_char_plain)
  then have "atob (btoa [a]) = map_option atob_groups (Some [(?n div 64) mod 64, ?n mod 64])"
    unfolding atob_def Let_def filter_btoa by (simp add: b64_digit_b64_char)
  then show ?case by (simp only: atob_groups_one option.map)
next
  case 4
  show ?case by (simp add: atob_def strip_padding_def)
qed

lemma decode_loop_eq: "decode_loop s bytes = bytes @ map of_char s"
  by (induction s arbitrary: bytes) simp_all

lemma byte_of_char: "(of_char (char_of (unat (b :: byte))) :: byte) = b"
proof -
  have lt: "unat b < 256" using unsigned_less [of b] by simp
  have "(of_char (char_of (unat b)) :: byte) = of_nat (of_char (char_of (unat b)))"
    by (simp only: of_nat_of_char)
  also have "\<dots> = of_nat (unat b mod 256)" by (simp only: of_char_of)
  also have "\<dots> = of_nat (unat b)" using lt by simp
  also have "\<dots> = b" by simp
  finally show ?thesis .
qed

lemma decode_encode: "decode (encode bytes) = Inr bytes"
  by (simp add: decode_def encode_def atob_btoa decode_loop_eq encode_loop_eq comp_def
      byte_of_char)

lemma decode_createBlob:
  "decode (data (createBlob samples)) = Inr (concat (map (\<lambda>x. le16 (quantize x)) samples))"
  by (simp add: createBlob_def createBlob_loop_map uint8_view_le16 decode_encode quantize_def
      comp_def)

subsection \<open>createBlob\<close>

lemma createBlob_eq:
  "createBlob samples =
     \<lparr>data = btoa (map (\<lambda>b. char_of (unat b)) (concat (map (\<lambda>x. le16 (quantize x)) samples))),
      mimeType = ''audio/pcm;rate=16000''\<rparr>"
  by (simp add: createBlob_def createBlob_loop_map encode_def encode_loop_eq uint8_view_le16
      quantize_def comp_def)

text \<open>
  C7, as stated, fails: the conversion to a 16-bit element truncates, it does not round.
  The sample \<open>3 / 131072\<close> (a 32-bit float) times \<open>32768\<close> is \<open>0.75\<close>, which rounds to
  \<open>1\<close>; \<open>createBlob\<close> stores \<open>0\<close>.
\<close>

theorem createBlob_rounding_counterexample:
  "map sint (createBlob_loop [Finite (3 / 131072)] 0 (replicate 1 0))
     \<noteq> map (\<lambda>x. round (x * 32768)) [3 / 131072 :: real]"
  by (simp add: createBlob_loop.simps trunc_def round_def)

text \<open>
  C7, amended. For every sequence of samples, \<open>createBlob\<close> returns the MIME type
  \<open>audio/pcm;rate=16000\<close> and the base64 encoding of the samples' 16-bit integers, each
  packed low byte first. The integer of a finite sample \<open>x\<close> is \<open>x * 32768\<close> truncated
  towards zero and wrapped modulo \<open>2^16\<close> into the signed range; NaN and the infinities
  give \<open>0\<close>. For \<open>- 1 \<le> x < 1\<close> nothing wraps and the integer is the truncation itself;
  the sample \<open>1\<close> wraps to \<open>- 32768\<close>.
\<close>

theorem createBlob_truncates:
  "mimeType (createBlob samples) = ''audio/pcm;rate=16000''
   \<and> data (createBlob samples)
       = btoa (map (\<lambda>b. char_of (unat b)) (concat (map (\<lambda>x. le16 (quantize x)) samples)))
   \<and> quantize (Finite x) = (trunc (x * 32768) + 32768) mod 65536 - 32768
   \<and> quantize NaN = 0 \<and> quantize PosInfinity = 0 \<and> quantize NegInfinity = 0
   \<and> (- 1 \<le> x \<and> x < 1 \<longrightarrow> quantize (Finite x) = trunc (x * 32768))
   \<and> quantize (Finite 1) = - 32768"
proof -
  have "quantize (Finite 1) = - 32768"
    by (simp add: quantize_Finite trunc_def)
  moreover have "quantize NaN = 0 \<and> quantize PosInfinity = 0 \<and> quantize NegInfinity = 0"
    by (simp add: quantize_def)
  ultimately show ?thesis
    by (simp add: createBlob_eq quantize_Finite [symmetric] quantize_in_range)
qed

text \<open>
  Three samples: a half, a small negative value that truncates to zero, and one, which
  wraps.
\<close>

theorem createBlob_truncates_witness:
  "data (createBlob [Finite (1 / 2), Finite (- 3 / 131072), Finite 1]) = ''AEAAAACA''
   \<and> mimeType (createBlob [Finite (1 / 2), Finite (- 3 / 131072), Finite 1])
       = ''audio/pcm;rate=16000''
   \<and> quantize (Finite (1 / 2)) = 16384 \<and> trunc (1 / 2 * 32768) = 16384"
proof -
  let ?s = "[Finite (1 / 2), Finite (- 3 / 131072), Finite 1]"
  have q: "concat (map (\<lambda>x. le16 (quantize x)) ?s) = [0, 64, 0, 0, 0, 128]"
    by (simp add: quantize_Finite trunc_def le16_def)
  have c: "map (\<lambda>b. char_of (unat b)) [0, 64, 0, 0, 0, 128 :: byte]
      = [CHR 0x00, CHR 0x40, CHR 0x00, CHR 0x00, CHR 0x00, CHR 0x80]"
    by (simp add: char_of_eq_iff)
  have b: "btoa [CHR 0x00, CHR 0x40, CHR 0x00, CHR 0x00, CHR 0x00, CHR 0x80] = ''AEAAAACA''"
    by (simp add: b64_char_def char_of_eq_iff)
  have r: "(- 1 :: real) \<le> 1 / 2 \<and> (1 / 2 :: real) < 1" by simp
  have t: "trunc (1 / 2 * 32768) = 16384" by (simp add: trunc_def)
  note inst = createBlob_truncates [of ?s "1 / 2"]
  have d: "data (createBlob ?s) = ''AEAAAACA''"
    using inst by (simp only: q c b)
  have m: "mimeType (createBlob ?s) = ''audio/pcm;rate=16000''"
    using inst by (simp only:)
  have v: "quantize (Finite (1 / 2)) = 16384"
    using inst r t by simp
  show ?thesis using d m v t by (simp only:)
qed

subsection \<open>Decoding and encoding again\<close>

lemma map_sample_of:
  "map (\<lambda>j. sample_of dataInt16 j) [0..<length dataInt16]
     = map (\<lambda>w. Finite (real_of_int (sint w) / 32768)) dataInt16"
  by (rule nth_equalityI) (simp_all add: sample_of_def)

lemma decodeAudioData_mono:
  assumes "even (length x)" "x \<noteq> []"
  shows "decodeAudioData x 24000 1
    = Inr \<lparr>rate = 24000,
           channelData = [map (\<lambda>w. Finite (real_of_int (sint w) / 32768)) (int16_view x)]\<rparr>"
proof -
  have "2 \<le> length x" using assms by (cases x rule: int16_view.cases) auto
  then have pos: "length (int16_view x) \<noteq> 0" by (simp add: length_int16_view)
  let ?b = "\<lparr>rate = 24000, channelData = [replicate (length (int16_view x)) (Finite 0)]\<rparr>"
  have "decode_channels (int16_view x) 1 (length (int16_view x)) 0 ?b
      = ?b\<lparr>channelData := [map (\<lambda>j. sample_of (int16_view x) j) [0..<length (int16_view x)]]\<rparr>"
    by (subst decode_channels_eq) simp_all
  then show ?thesis
    using assms(1) pos
    by (simp add: decodeAudioData_def new_Int16Array_def createBuffer_def map_sample_of)
qed

lemma requantize:
  "map (\<lambda>x. toInt16 (times32768 x)) (map (\<lambda>w. Finite (real_of_int (sint w) / 32768)) ws) = ws"
  by (induction ws) (simp_all add: trunc_signed)

text \<open>
  C8. Let \<open>x\<close> be a buffer of 16-bit PCM: a non-empty even number of bytes. Decoded as
  one channel at 24000 Hz, as \<open>playAudioChunk\<close> does, it yields each 16-bit sample
  divided by \<open>32768\<close>. Encoding these floats again with the loop of \<open>createBlob\<close> gives
  elements whose values, on the scale of the floats, are within \<open>1 / 32768\<close> of the
  samples of \<open>x\<close>; in fact they are the samples of \<open>x\<close>, and the blob carries the base64
  encoding of \<open>x\<close> itself.
\<close>

theorem decode_then_encode:
  assumes "even (length x)" and "x \<noteq> []"
  shows "decodeAudioData x 24000 1
           = Inr \<lparr>rate = 24000,
                  channelData = [map (\<lambda>w. Finite (real_of_int (sint w) / 32768)) (int16_view x)]\<rparr>
    \<and> list_all2 (\<lambda>q w. \<bar>real_of_int (sint q) / 32768 - real_of_int (sint w) / 32768\<bar> \<le> 1 / 32768)
        (createBlob_loop (map (\<lambda>w. Finite (real_of_int (sint w) / 32768)) (int16_view x)) 0
           (replicate (length (int16_view x)) 0))
        (int16_view x)
    \<and> createBlob_loop (map (\<lambda>w. Finite (real_of_int (sint w) / 32768)) (int16_view x)) 0
           (replicate (length (int16_view x)) 0) = int16_view x
    \<and> data (createBlob (map (\<lambda>w. Finite (real_of_int (sint w) / 32768)) (int16_view x)))
        = encode x"
proof -
  let ?s = "map (\<lambda>w. Finite (real_of_int (sint w) / 32768)) (int16_view x)"
  have loop: "createBlob_loop ?s 0 (replicate (length (int16_view x)) 0) = int16_view x"
    using createBlob_loop_map [of ?s] by (simp only: requantize length_map)
  have "data (createBlob ?s) = encode (uint8_view (int16_view x))"
    using loop by (simp add: createBlob_def)
  then have blob: "data (createBlob ?s) = encode x"
    using assms(1) by (simp add: uint8_int16_view)
  have "list_all2 (\<lambda>q w. \<bar>real_of_int (sint q) / 32768 - real_of_int (sint w) / 32768\<bar> \<le> 1 / 32768)
      (int16_view x) (int16_view x)"
    by (simp add: list_all2_same)
  then show ?thesis
    using decodeAudioData_mono [OF assms] loop blob by simp
qed

text \<open>The samples \<open>16384\<close>, \<open>- 1\<close> and \<open>- 32768\<close>.\<close>

theorem decode_then_encode_witness:
  "decodeAudioData [0, 64, 255, 255, 0, 128] 24000 1
     = Inr \<lparr>rate = 24000, channelData = [[Finite (1 / 2), Finite (- 1 / 32768), Finite (- 1)]]\<rparr>
   \<and> data (createBlob [Finite (1 / 2), Finite (- 1 / 32768), Finite (- 1)])
       = encode [0, 64, 255, 255, 0, 128]"
proof -
  have h1: "even (length [0, 64, 255, 255, 0, 128 :: byte])" by simp
  have h2: "[0, 64, 255, 255, 0, 128 :: byte] \<noteq> []" by simp
  have v: "map (\<lambda>w. Finite (real_of_int (sint w) / 32768)) (int16_view [0, 64, 255, 255, 0, 128])
      = [Finite (1 / 2), Finite (- 1 / 32768), Finite (- 1)]"
    by simp
  show ?thesis
    using decode_then_encode [OF h1 h2] unfolding v by simp
qed

section \<open>Rounding to a double\<close>

subsection \<open>The exponent\<close>

text \<open>\<open>expo x\<close> is the exponent of the power of two at or below \<open>\<bar>x\<bar>\<close>, and the only one.\<close>

lemma expo_bounds:
  assumes "x \<noteq> 0"
  shows "2 powi expo x \<le> \<bar>x\<bar>" and "\<bar>x\<bar> < 2 powi (expo x + 1)"
proof -
  define a where "a = \<bar>x\<bar>"
  have pos: "0 < a" using assms by (simp add: a_def)
  have "2 powi expo x \<le> a \<and> a < 2 powi (expo x + 1)"
  proof (cases "1 \<le> a")
    case True
    define n where "n = \<lfloor>a\<rfloor>"
    have n: "0 < n" "of_int n \<le> a" "a < of_int n + 1" using True by (simp_all add: n_def; linarith)+
    define b where "b = bitlen n"
    have b1: "1 \<le> b" using n(1) by (auto simp: b_def bitlen_alt_def)
    have e: "expo x = b - 1" using True by (simp add: expo_def a_def b_def n_def)
    have lo: "2 ^ nat (b - 1) \<le> n" and hi: "n < 2 ^ nat b"
      using bitlen_bounds [OF n(1)] by (simp_all add: b_def)
    have "(2::real) powi (b - 1) = 2 ^ nat (b - 1)" using b1 by (simp add: power_int_def)
    moreover have "(2::real) ^ nat (b - 1) \<le> of_int n" using lo
      by (metis of_int_le_iff of_int_numeral of_int_power)
    ultimately have 1: "2 powi (b - 1) \<le> a" using n(2) by linarith
    have "n + 1 \<le> 2 ^ nat b" using hi by simp
    then have "of_int (n + 1) \<le> (2::real) ^ nat b"
      by (metis of_int_le_iff of_int_numeral of_int_power)
    moreover have "(2::real) powi b = 2 ^ nat b" using b1 by (simp add: power_int_def)
    ultimately have 2: "a < 2 powi (b - 1 + 1)" using n(3) by simp
    show ?thesis using 1 2 by (simp add: e)
  next
    case False
    define t where "t = 1 / a"
    have t1: "1 < t" using False pos by (simp add: t_def)
    define m where "m = \<lceil>t\<rceil> - 1"
    have m: "0 < m" "of_int m < t" "t \<le> of_int m + 1" using t1 by (simp_all add: m_def; linarith)+
    define b where "b = bitlen m"
    have b1: "1 \<le> b" using m(1) by (auto simp: b_def bitlen_alt_def)
    have e: "expo x = - b" using False by (simp add: expo_def a_def b_def m_def t_def)
    have lo: "2 ^ nat (b - 1) \<le> m" and hi: "m < 2 ^ nat b"
      using bitlen_bounds [OF m(1)] by (simp_all add: b_def)
    have "m + 1 \<le> 2 ^ nat b" using hi by simp
    then have "of_int (m + 1) \<le> (2::real) ^ nat b"
      by (metis of_int_le_iff of_int_numeral of_int_power)
    then have "t \<le> 2 ^ nat b" using m(3) by simp
    then have "1 / 2 ^ nat b \<le> a" using pos by (simp add: t_def field_simps)
    moreover have "(2::real) powi (- b) = 1 / 2 ^ nat b" using b1 by (simp add: power_int_def field_simps)
    ultimately have 1: "2 powi (- b) \<le> a" by simp
    have "(2::real) ^ nat (b - 1) \<le> of_int m" using lo
      by (metis of_int_le_iff of_int_numeral of_int_power)
    then have "2 ^ nat (b - 1) < t" using m(2) by linarith
    then have "a < 1 / 2 ^ nat (b - 1)" using pos by (simp add: t_def field_simps)
    moreover have "(2::real) powi (- b + 1) = 1 / 2 ^ nat (b - 1)"
      using b1 by (simp add: power_int_def field_simps nat_diff_distrib)
    ultimately have 2: "a < 2 powi (- b + 1)" by simp
    show ?thesis using 1 2 by (simp add: e)
  qed
  then show "2 powi expo x \<le> \<bar>x\<bar>" and "\<bar>x\<bar> < 2 powi (expo x + 1)" by (simp_all add: a_def)
qed

lemma expo_unique:
  assumes "2 powi e \<le> \<bar>x\<bar>" and "\<bar>x\<bar> < 2 powi (e + 1)"
  shows "expo x = e"
proof -
  have "0 < (2::real) powi e" by simp
  then have "0 < \<bar>x\<bar>" using assms(1) by linarith
  then have "x \<noteq> 0" by simp
  note b = expo_bounds [OF this]
  have "\<not> expo x < e"
  proof
    assume "expo x < e"
    then have "(2::real) powi (expo x + 1) \<le> 2 powi e" by (intro power_int_increasing) auto
    then show False using b(2) assms(1) by linarith
  qed
  moreover have "\<not> e < expo x"
  proof
    assume "e < expo x"
    then have "(2::real) powi (e + 1) \<le> 2 powi expo x" by (intro power_int_increasing) auto
    then show False using b(1) assms(2) by linarith
  qed
  ultimately show ?thesis by simp
qed

lemma expo_mono:
  assumes "s \<noteq> 0" and "\<bar>s\<bar> \<le> \<bar>y\<bar>"
  shows "expo s \<le> expo y"
proof (rule ccontr)
  assume "\<not> expo s \<le> expo y"
  then have "expo y + 1 \<le> expo s" by simp
  then have "(2::real) powi (expo y + 1) \<le> 2 powi expo s" by (intro power_int_increasing) auto
  moreover have "y \<noteq> 0" using assms by auto
  ultimately show False
    using expo_bounds(1) [OF assms(1)] expo_bounds(2) [OF \<open>y \<noteq> 0\<close>] assms(2) by linarith
qed

subsection \<open>Rounding to an integer\<close>

lemma rnd_even_ge: "of_int k \<le> t \<Longrightarrow> k \<le> rnd_even t"
proof -
  assume "of_int k \<le> t"
  then have "k \<le> \<lfloor>t\<rfloor>" by (simp add: le_floor_iff)
  then show ?thesis by (auto simp: rnd_even_def Let_def)
qed

lemma rnd_even_le: "t \<le> of_int k \<Longrightarrow> rnd_even t \<le> k"
proof -
  assume a: "t \<le> of_int k"
  show ?thesis
  proof (cases "t = of_int k")
    case True
    then show ?thesis by (simp add: rnd_even_def Let_def)
  next
    case False
    then have "t < of_int k" using a by simp
    then have "\<lfloor>t\<rfloor> < k" by (simp add: floor_less_iff)
    then show ?thesis by (auto simp: rnd_even_def Let_def)
  qed
qed

lemma rnd_even_of_int: "rnd_even (of_int k) = k"
  by (simp add: rnd_even_def Let_def)

subsection \<open>The unit in the last place\<close>

text \<open>
  The significand of \<open>x\<close> is \<open>x / 2 powi (expo x - 52)\<close>, a real from \<open>2 ^ 52\<close> up to
  \<open>2 ^ 53\<close>; \<open>to_double\<close> rounds it to an integer.
\<close>

lemma scale_up:
  "(x::real) / 2 powi (e - 52) = x * 2 powi (52 - e)"
proof -
  have "(2::real) powi (52 - e) = inverse (2 powi (e - 52))"
    using power_int_minus [of "2::real" "e - 52"] by simp
  then show ?thesis by (simp add: divide_inverse)
qed

lemma ulp_times: "(2::real) powi (e - 52) * 2 ^ 52 = 2 powi e"
  using power_int_add [of "2::real" "e - 52" 52] by simp

lemma ulp_times53: "(2::real) powi (e - 52) * 2 ^ 53 = 2 powi (e + 1)"
  using power_int_add [of "2::real" "e - 52" 53] by (simp add: add.commute)

lemma ulp_double: "(2::real) powi (e + 1) = 2 powi e * 2"
  using power_int_add [of "2::real" e 1] by simp

lemma ulp_scale_ge:
  assumes "2 ^ 52 \<le> k"
  shows "2 powi e \<le> of_int k * (2::real) powi (e - 52)"
proof -
  have "(2::real) ^ 52 \<le> of_int k"
    using assms by (metis of_int_le_iff of_int_numeral of_int_power)
  then have "2 ^ 52 * (2::real) powi (e - 52) \<le> of_int k * 2 powi (e - 52)"
    by (intro mult_right_mono) simp_all
  moreover have "2 ^ 52 * (2::real) powi (e - 52) = 2 powi e"
    using ulp_times [of e] by (simp only: mult.commute)
  ultimately show ?thesis by (simp only:)
qed

lemma ulp_scale_less:
  assumes "k < 2 ^ 53"
  shows "of_int k * (2::real) powi (e - 52) < 2 powi (e + 1)"
proof -
  have "k + 1 \<le> 2 ^ 53" using assms by simp
  then have "(of_int (k + 1) :: real) \<le> 2 ^ 53"
    by (metis of_int_le_iff of_int_numeral of_int_power)
  then have "(of_int k :: real) < 2 ^ 53" by simp
  then have "of_int k * (2::real) powi (e - 52) < 2 ^ 53 * 2 powi (e - 52)"
    by (intro mult_strict_right_mono) simp_all
  moreover have "2 ^ 53 * (2::real) powi (e - 52) = 2 powi (e + 1)"
    using ulp_times53 [of e] by (simp only: mult.commute)
  ultimately show ?thesis by (simp only:)
qed

lemma scaled_bounds:
  assumes "0 < x"
  shows "2 ^ 52 \<le> x / 2 powi (expo x - 52)" and "x / 2 powi (expo x - 52) < 2 ^ 53"
proof -
  let ?u = "(2::real) powi (expo x - 52)"
  have u: "0 < ?u" by simp
  have x: "x \<noteq> 0" "\<bar>x\<bar> = x" using assms by simp_all
  have "2 powi expo x \<le> x" using expo_bounds(1) [OF x(1)] by (simp only: x(2))
  then have "?u * 2 ^ 52 \<le> x" by (simp only: ulp_times)
  then show "2 ^ 52 \<le> x / ?u" using u by (simp add: field_simps)
  have "?u * 2 ^ 53 = 2 powi (expo x + 1)" by (rule ulp_times53)
  moreover have "x < 2 powi (expo x + 1)" using expo_bounds(2) [OF x(1)] by (simp only: x(2))
  ultimately have "x < ?u * 2 ^ 53" by (simp only:)
  then show "x / ?u < 2 ^ 53" using u by (simp add: field_simps)
qed

subsection \<open>Rounding is monotone and idempotent\<close>

lemma to_double_nonneg: "0 \<le> x \<Longrightarrow> 0 \<le> to_double x"
proof -
  assume "0 \<le> x"
  then have "of_int 0 \<le> x / 2 powi (expo x - 52)" by simp
  then have "0 \<le> rnd_even (x / 2 powi (expo x - 52))" by (rule rnd_even_ge)
  then show ?thesis by (simp add: to_double_def)
qed

text \<open>A value at or above a double is rounded to a value at or above that double.\<close>

lemma to_double_ge:
  assumes "is_double s" and "0 \<le> s" and "s \<le> y"
  shows "s \<le> to_double y"
proof (cases "s = 0")
  case True
  then show ?thesis using assms to_double_nonneg [of y] by simp
next
  case False
  then have s: "0 < s" and y: "0 < y" using assms by simp_all
  let ?us = "(2::real) powi (expo s - 52)" and ?uy = "(2::real) powi (expo y - 52)"
  have le: "expo s \<le> expo y" using expo_mono [of s y] s y assms(3) by simp
  have td: "to_double y = of_int (rnd_even (y / ?uy)) * ?uy" using y by (simp add: to_double_def)
  show ?thesis
  proof (cases "expo s = expo y")
    case True
    have "s = of_int (rnd_even (s / ?us)) * ?us"
      using assms(1) s by (simp add: is_double_def to_double_def)
    then obtain k :: int where k: "s = of_int k * ?uy" unfolding True by blast
    have "of_int k \<le> y / ?uy" using assms(3) k by (simp add: field_simps)
    then have "k \<le> rnd_even (y / ?uy)" by (rule rnd_even_ge)
    then have "of_int k * ?uy \<le> of_int (rnd_even (y / ?uy)) * ?uy"
      by (intro mult_right_mono) simp_all
    then show ?thesis by (simp add: td k)
  next
    case False
    then have "expo s + 1 \<le> expo y" using le by simp
    then have "(2::real) powi (expo s + 1) \<le> 2 powi expo y" by (intro power_int_increasing) auto
    moreover have "s < 2 powi (expo s + 1)" using expo_bounds(2) [of s] s by simp
    ultimately have 1: "s < 2 powi expo y" by linarith
    have "of_int (2 ^ 52) \<le> y / ?uy" using scaled_bounds(1) [OF y] by simp
    then have "2 ^ 52 \<le> rnd_even (y / ?uy)" by (rule rnd_even_ge)
    then have "2 powi expo y \<le> to_double y" unfolding td by (rule ulp_scale_ge)
    then show ?thesis using 1 by linarith
  qed
qed

text \<open>
  What rounding returns is a double: the rounded significand is below \<open>2 ^ 53\<close> and the
  exponent stays, or it is \<open>2 ^ 53\<close> and the result is the next power of two.
\<close>

lemma to_double_idem:
  assumes "0 \<le> x"
  shows "is_double (to_double x)"
proof (cases "x = 0")
  case True
  then show ?thesis by (simp add: is_double_def to_double_def)
next
  case False
  then have x: "0 < x" using assms by simp
  let ?u = "(2::real) powi (expo x - 52)"
  define k where "k = rnd_even (x / ?u)"
  have v: "to_double x = of_int k * ?u" using x by (simp add: to_double_def k_def)
  have "of_int (2 ^ 52) \<le> x / ?u" using scaled_bounds(1) [OF x] by simp
  then have klo: "2 ^ 52 \<le> k" unfolding k_def by (rule rnd_even_ge)
  have "x / ?u \<le> of_int (2 ^ 53)" using scaled_bounds(2) [OF x] by simp
  then have khi: "k \<le> 2 ^ 53" unfolding k_def by (rule rnd_even_le)
  have vlo: "2 powi expo x \<le> of_int k * ?u" using klo by (rule ulp_scale_ge)
  have vpos: "0 < of_int k * ?u" using vlo zero_less_power_int [of "2::real" "expo x"] by linarith
  show ?thesis
  proof (cases "k = 2 ^ 53")
    case True
    have "(2::real) powi (expo x + 1) = 2 powi expo x * 2" by (rule ulp_double)
    then have val: "of_int k * ?u = 2 powi (expo x + 1)"
      using ulp_times [of "expo x"] by (simp add: True)
    have "(2::real) powi (expo x + 1 + 1) = 2 powi (expo x + 1) * 2" by (rule ulp_double)
    then have e: "expo (2 powi (expo x + 1)) = expo x + 1"
      by (intro expo_unique) simp_all
    have "(2::real) powi (expo x + 1) / 2 powi (expo x + 1 - 52) = of_int (2 ^ 52)"
      using ulp_times [of "expo x + 1"] by (simp add: field_simps)
    then have "rnd_even (2 powi (expo x + 1) / 2 powi (expo x + 1 - 52)) = 2 ^ 52"
      by (simp only: rnd_even_of_int)
    then have "to_double (2 powi (expo x + 1)) = 2 powi (expo x + 1)"
      using ulp_times [of "expo x + 1"] by (simp add: to_double_def e mult.commute)
    then show ?thesis by (simp add: is_double_def v val)
  next
    case False
    then have "k < 2 ^ 53" using khi by simp
    then have vhi: "of_int k * ?u < 2 powi (expo x + 1)" by (rule ulp_scale_less)
    have e: "expo (of_int k * ?u) = expo x"
      using vlo vhi vpos by (intro expo_unique) simp_all
    have "of_int k * ?u / ?u = of_int k" by simp
    then have "rnd_even (of_int k * ?u / ?u) = k" by (simp only: rnd_even_of_int)
    then have "to_double (of_int k * ?u) = of_int k * ?u"
      using vpos by (simp add: to_double_def e)
    then show ?thesis by (simp add: is_double_def v)
  qed
qed

text \<open>Rounding at a known exponent; this evaluates \<open>to_double\<close> at a given number.\<close>

lemma to_double_eval:
  assumes "2 powi e \<le> \<bar>x\<bar>" and "\<bar>x\<bar> < 2 powi (e + 1)"
  shows "to_double x = of_int (rnd_even (x * 2 powi (52 - e))) * 2 powi (e - 52)"
proof -
  have "0 < (2::real) powi e" by simp
  then have "0 < \<bar>x\<bar>" using assms(1) by linarith
  then have "x \<noteq> 0" by simp
  then show ?thesis by (simp add: to_double_def expo_unique [OF assms] scale_up)
qed


subsection \<open>The error of a rounding\<close>

lemma rnd_even_lower: "t - 1 / 2 \<le> of_int (rnd_even t)"
proof -
  have "t < of_int \<lfloor>t\<rfloor> + 1" by linarith
  then show ?thesis unfolding rnd_even_def Let_def by (auto; linarith)
qed

text \<open>A rounding lowers a value by at most half a unit of its last place.\<close>

lemma to_double_lower: "x - \<bar>x\<bar> / 2 ^ 53 \<le> to_double x"
proof (cases "x = 0")
  case True
  then show ?thesis by (simp add: to_double_def)
next
  case False
  let ?u = "(2::real) powi (expo x - 52)"
  have u: "0 < ?u" by simp
  have "(x / ?u - 1 / 2) * ?u \<le> of_int (rnd_even (x / ?u)) * ?u"
    using rnd_even_lower [of "x / ?u"] by (intro mult_right_mono) simp_all
  moreover have "(x / ?u - 1 / 2) * ?u = x - ?u / 2" using u by (simp add: field_simps)
  ultimately have 1: "x - ?u / 2 \<le> to_double x" using False by (simp add: to_double_def)
  have "2 powi expo x \<le> \<bar>x\<bar>" using False by (rule expo_bounds(1))
  then have "?u * 2 ^ 52 \<le> \<bar>x\<bar>" by (simp only: ulp_times)
  then have "?u / 2 \<le> \<bar>x\<bar> / 2 ^ 53" by simp
  then show ?thesis using 1 by linarith
qed

lemma to_double_to_double: "0 \<le> x \<Longrightarrow> to_double (to_double x) = to_double x"
  using to_double_idem [of x] by (simp add: is_double_def)

lemma is_double_0: "is_double 0"
  by (simp add: is_double_def to_double_def)

lemma is_double_max: "is_double a \<Longrightarrow> is_double b \<Longrightarrow> is_double (max a b)"
  by (simp add: max_def)

subsection \<open>No overflow\<close>

text \<open>A value at or below a double is rounded to a value at or below that double.\<close>

lemma to_double_le:
  assumes "is_double m" and "0 < y" and "y \<le> m"
  shows "to_double y \<le> m"
proof -
  have m: "0 < m" using assms by simp
  let ?um = "(2::real) powi (expo m - 52)" and ?uy = "(2::real) powi (expo y - 52)"
  have le: "expo y \<le> expo m" using expo_mono [of y m] assms(2,3) by simp
  have td: "to_double y = of_int (rnd_even (y / ?uy)) * ?uy"
    using assms(2) by (simp add: to_double_def)
  show ?thesis
  proof (cases "expo y = expo m")
    case True
    have "m = of_int (rnd_even (m / ?um)) * ?um"
      using assms(1) m by (simp add: is_double_def to_double_def)
    then obtain k :: int where k: "m = of_int k * ?uy" unfolding True [symmetric] by blast
    have "y / ?uy \<le> of_int k" using assms(3) k by (simp add: field_simps)
    then have "rnd_even (y / ?uy) \<le> k" by (rule rnd_even_le)
    then have "of_int (rnd_even (y / ?uy)) * ?uy \<le> of_int k * ?uy"
      by (intro mult_right_mono) simp_all
    then show ?thesis by (simp add: td k)
  next
    case False
    then have "expo y + 1 \<le> expo m" using le by simp
    then have "(2::real) powi (expo y + 1) \<le> 2 powi expo m" by (intro power_int_increasing) auto
    moreover have "2 powi expo m \<le> m" using expo_bounds(1) [of m] m by simp
    ultimately have 1: "2 powi (expo y + 1) \<le> m" by linarith
    have "y / ?uy \<le> of_int (2 ^ 53)" using scaled_bounds(2) [OF assms(2)] by simp
    then have "rnd_even (y / ?uy) \<le> 2 ^ 53" by (rule rnd_even_le)
    then have "(of_int (rnd_even (y / ?uy)) :: real) \<le> 2 ^ 53"
      by (metis of_int_le_iff of_int_numeral of_int_power)
    then have "of_int (rnd_even (y / ?uy)) * ?uy \<le> 2 ^ 53 * ?uy"
      by (intro mult_right_mono) simp_all
    moreover have "2 ^ 53 * ?uy = 2 powi (expo y + 1)"
      using ulp_times53 [of "expo y"] by (simp only: mult.commute)
    ultimately have "to_double y \<le> 2 powi (expo y + 1)" by (simp only: td)
    then show ?thesis using 1 by linarith
  qed
qed

text \<open>
  Up to half a unit in the last place above the largest double, a value is rounded to
  the largest double: the sum of a time and a duration does not overflow.
\<close>

lemma max_double_bounds: "2 powi 1023 \<le> max_double" "max_double < 2 powi (1023 + 1)"
  by (simp_all add: max_double_def)

lemma to_double_max_plus:
  assumes "0 \<le> d" and "d < 2 ^ 970"
  shows "to_double (max_double + d) = max_double"
proof -
  let ?x = "max_double + d"
  have 1: "2 powi 1023 \<le> \<bar>?x\<bar>" using assms(1) max_double_bounds(1) by simp
  have 2: "\<bar>?x\<bar> < 2 powi (1023 + 1)" using assms by (simp add: max_double_def)
  have s: "?x * 2 powi (52 - 1023) = 2 ^ 53 - 1 + d / 2 ^ 971"
    by (simp add: max_double_def power_int_minus field_simps)
  have "0 \<le> d / 2 ^ 971" "d / 2 ^ 971 < 1 / 2" using assms by simp_all
  then have f: "\<lfloor>2 ^ 53 - 1 + d / 2 ^ 971\<rfloor> = 2 ^ 53 - 1"
    by (intro floor_unique) simp_all
  have "rnd_even (2 ^ 53 - 1 + d / 2 ^ 971) = 2 ^ 53 - 1"
    using \<open>d / 2 ^ 971 < 1 / 2\<close> unfolding rnd_even_def Let_def f by simp
  then show ?thesis
    by (simp only: to_double_eval [OF 1 2] s) (simp add: max_double_def)
qed

lemma is_double_max_double: "is_double max_double"
  using to_double_max_plus [of 0] by (simp add: is_double_def)

lemma no_overflow:
  assumes "0 \<le> s" and "s \<le> max_double" and "0 \<le> d" and "d < 2 ^ 970"
  shows "to_double (s + d) \<le> max_double"
proof (cases "s + d \<le> max_double")
  case True
  show ?thesis
  proof (cases "s + d = 0")
    case True
    then show ?thesis by (simp add: to_double_def max_double_def)
  next
    case False
    then have "0 < s + d" using assms(1,3) by simp
    then show ?thesis using is_double_max_double True by (intro to_double_le)
  qed
next
  case False
  define d' where "d' = s + d - max_double"
  have "0 \<le> d'" "d' < 2 ^ 970" using False assms(2,4) by (simp_all add: d'_def)
  then have "to_double (max_double + d') = max_double" by (rule to_double_max_plus)
  then show ?thesis by (simp add: d'_def)
qed

subsection \<open>Some doubles\<close>

text \<open>
  \<open>0.5\<close> and \<open>1\<close> are doubles. \<open>1 / 12000\<close> is not: the nearest double is
  \<open>6148914691236517 / 2 ^ 66\<close>, which JavaScript prints as \<open>8.333333333333333e-05\<close>. The
  sum of \<open>0.5\<close> and that double is not a double either; it lies \<open>677 / 2 ^ 66\<close> above the
  nearest one, \<open>4504350227308391 / 2 ^ 53\<close>, printed as \<open>0.5000833333333333\<close>.
\<close>

lemma to_double_half: "to_double (1 / 2) = 1 / 2"
  by (subst to_double_eval [where e = "- 1"]) (simp_all add: rnd_even_def Let_def power_int_minus)

lemma to_double_1: "to_double 1 = 1"
  by (subst to_double_eval [where e = 0]) (simp_all add: rnd_even_def Let_def power_int_minus)

lemma to_double_12000: "to_double (1 / 12000) = 6148914691236517 / 73786976294838206464"
  by (subst to_double_eval [where e = "- 14"]) (simp_all add: rnd_even_def Let_def power_int_minus)

lemma to_double_duration:
  "to_double (6148914691236517 / 73786976294838206464) = 6148914691236517 / 73786976294838206464"
  using to_double_to_double [of "1 / 12000"] by (simp add: to_double_12000)

lemma to_double_half_plus:
  "to_double (1 / 2 + 6148914691236517 / 73786976294838206464)
     = 4504350227308391 / 9007199254740992"
  by (subst to_double_eval [where e = "- 1"]) (simp_all add: rnd_even_def Let_def power_int_minus)

section \<open>Playback\<close>

subsection \<open>Concrete chunks\<close>

text \<open>
  \<open>AAAAAA==\<close> is four zero bytes: two frames of silence at 24000 Hz, with the double
  nearest to \<open>1 / 12000\<close> for a duration.
  \<open>QQ==\<close> is the single byte 65, which is not a whole number of 16-bit samples.
\<close>

lemma atob_example: "atob ''AAAAAA=='' = Some [CHR 0x00, CHR 0x00, CHR 0x00, CHR 0x00]"
  by (simp add: atob_def strip_padding_def ascii_whitespace_def b64_digit_def char_of_eq_iff)

lemma decode_example: "decode ''AAAAAA=='' = Inr [0, 0, 0, 0]"
  by (simp add: decode_def atob_example)

lemma decodeAudioData_example:
  "decodeAudioData [0, 0, 0, 0] 24000 1 = Inr \<lparr>rate = 24000, channelData = [[Finite 0, Finite 0]]\<rparr>"
  using decodeAudioData_mono [of "[0, 0, 0, 0]"] by simp

lemma playAudioChunk_example:
  assumes "outputAudioContextRef st = Some Running"
  shows "playAudioChunk now ''AAAAAA=='' st
     = st\<lparr>nextStartTimeRef := to_double (max (nextStartTimeRef st) now + to_double (1 / 12000)),
          audioSourcesRef := audioSourcesRef st @ [nodesCreated st],
          nodesCreated := Suc (nodesCreated st),
          trace := trace st @ [SourceStart (nodesCreated st) (max (nextStartTimeRef st) now)
                                 (to_double (1 / 12000))]\<rparr>"
  by (simp add: playAudioChunk_def decode_example decodeAudioData_example assms emit_def
      duration_def Let_def del: One_nat_def)

lemma activeApp_fields:
  "outputAudioContextRef activeApp = Some Running" "nextStartTimeRef activeApp = 0"
  "nodesCreated activeApp = 0" "audioSourcesRef activeApp = []" "trace activeApp = []"
  "isNpcSpeaking activeApp = False"
  by (simp_all add: activeApp_def initialApp_def)

lemma render_activeApp:
  "status (render activeApp) = Active" "scenario (render activeApp) = Some exampleScenario"
  "transcript (render activeApp)
     = [\<lparr>speaker = User, text' = ''Hello'', isFinal = True, imageUrl = None\<rparr>]"
  "isNpcSpeaking (render activeApp) = False"
  by (simp_all add: render_def react_state.truncate_def activeApp_def initialApp_def)

lemma playing_example:
  "playAudioChunk 0 ''AAAAAA=='' activeApp
     = activeApp\<lparr>nextStartTimeRef := to_double (1 / 12000), audioSourcesRef := [0],
                 nodesCreated := 1, trace := [SourceStart 0 0 (to_double (1 / 12000))]\<rparr>"
  by (simp add: playAudioChunk_example activeApp_fields to_double_to_double)

lemma atob_odd: "atob ''QQ=='' = Some ''A''"
  by (simp add: atob_def strip_padding_def ascii_whitespace_def b64_digit_def char_of_eq_iff)

lemma not_decodable_odd: "decode ''QQ=='' = Inr [65] \<and> decodeAudioData [65] 24000 1 = Inl RangeError"
  by (simp add: decode_def atob_odd decodeAudioData_def new_Int16Array_def)

lemma playAudioChunk_odd:
  "outputAudioContextRef st = Some Running \<Longrightarrow> playAudioChunk now ''QQ=='' st = st"
  by (simp add: playAudioChunk_def not_decodable_odd del: One_nat_def)

lemma onNpcAudio_example:
  assumes "outputAudioContextRef st = Some Running" and "\<not> isNpcSpeaking r"
  shows "onNpcAudio r now ''AAAAAA=='' st
     = st\<lparr>isNpcSpeaking := True,
          nextStartTimeRef := to_double (max (nextStartTimeRef st) now + to_double (1 / 12000)),
          audioSourcesRef := audioSourcesRef st @ [nodesCreated st],
          nodesCreated := Suc (nodesCreated st),
          trace := trace st @ [SourceStart (nodesCreated st) (max (nextStartTimeRef st) now)
                                 (to_double (1 / 12000))]\<rparr>"
  using assms by (simp add: onNpcAudio_def playAudioChunk_example)

lemma onNpcAudio_odd:
  assumes "outputAudioContextRef st = Some Running" and "\<not> isNpcSpeaking r"
  shows "onNpcAudio r now ''QQ=='' st = st\<lparr>isNpcSpeaking := True\<rparr>"
  using assms by (simp add: onNpcAudio_def playAudioChunk_odd)

subsection \<open>The order of the chunks\<close>

lemma schedule_append: "schedule (es @ fs) = schedule es @ schedule fs"
  by (induction es rule: schedule.induct) simp_all

lemma in_order_snoc:
  "in_order sched \<Longrightarrow> ends_by sched t \<Longrightarrow> t \<le> s \<Longrightarrow> in_order (sched @ [(s, d)])"
  by (induction sched rule: in_order.induct) auto

lemma ends_by_snoc: "ends_by (sched @ [(s, d)]) t = (to_double (s + d) \<le> t \<and> s \<le> t)"
  by (induction sched t rule: ends_by.induct) simp_all

lemma duration_nonneg: "0 \<le> duration b"
  by (simp add: duration_def to_double_nonneg)

text \<open>
  A chunk put at the later of \<open>nextStartTimeRef\<close> and the clock keeps the schedule in
  order; the rounded sum is a double again and is not below the start of the chunk.
\<close>

lemma scheduled_by_snoc:
  assumes "scheduled_by sched t" and "is_double now" and "0 \<le> now" and "0 \<le> d"
  shows "scheduled_by (sched @ [(max t now, d)]) (to_double (max t now + d))"
proof -
  let ?s = "max t now"
  have t: "in_order sched" "ends_by sched t" "is_double t" "0 \<le> t"
    using assms(1) by (simp_all add: scheduled_by_def)
  have s: "is_double ?s" "0 \<le> ?s" "t \<le> ?s"
    using t(3,4) assms(2,3) by (simp_all add: is_double_max)
  have 1: "in_order (sched @ [(?s, d)])" using t(1,2) s(3) by (rule in_order_snoc)
  have 2: "?s \<le> to_double (?s + d)" using s(1,2) assms(4) by (intro to_double_ge) simp_all
  have 3: "is_double (to_double (?s + d))" using s(2) assms(4) by (intro to_double_idem) simp
  have 4: "0 \<le> to_double (?s + d)" using s(2) assms(4) by (intro to_double_nonneg) simp
  show ?thesis using 1 2 3 4 by (simp add: scheduled_by_def ends_by_snoc)
qed

text \<open>What one chunk does to the schedule and to the time the next chunk may start.\<close>

lemma playAudioChunk_cases:
  "(schedule (trace (playAudioChunk now base64Audio st)) = schedule (trace st)
      \<and> nextStartTimeRef (playAudioChunk now base64Audio st) = nextStartTimeRef st)
   \<or> (\<exists>d. 0 \<le> d
      \<and> schedule (trace (playAudioChunk now base64Audio st))
          = schedule (trace st) @ [(max (nextStartTimeRef st) now, d)]
      \<and> nextStartTimeRef (playAudioChunk now base64Audio st)
          = to_double (max (nextStartTimeRef st) now + d))"
  by (auto simp add: playAudioChunk_def Let_def emit_def schedule_append duration_nonneg
      split: option.split sum.split)

lemma playAudioChunk_schedule:
  assumes "scheduled_by (schedule (trace st)) (nextStartTimeRef st)"
    and "is_double now" and "0 \<le> now"
  shows "scheduled_by (schedule (trace (playAudioChunk now base64Audio st)))
           (nextStartTimeRef (playAudioChunk now base64Audio st))"
  using playAudioChunk_cases [of now base64Audio st] scheduled_by_snoc [OF assms] assms(1)
  by auto

lemma onended_schedule:
  "trace (onended source st) = trace st \<and> nextStartTimeRef (onended source st) = nextStartTimeRef st"
  by (simp add: onended_def Let_def)

lemma playback_step_schedule:
  assumes "scheduled_by (schedule (trace st)) (nextStartTimeRef st)" and "clock_event ev"
  shows "scheduled_by (schedule (trace (playback_step r st ev)))
           (nextStartTimeRef (playback_step r st ev))"
proof (cases ev)
  case (NpcAudio now audioData)
  let ?st = "if \<not> isNpcSpeaking r then st\<lparr>isNpcSpeaking := True\<rparr> else st"
  have "trace ?st = trace st" "nextStartTimeRef ?st = nextStartTimeRef st" by simp_all
  then have "scheduled_by (schedule (trace ?st)) (nextStartTimeRef ?st)"
    using assms(1) by simp
  moreover have "is_double now" "0 \<le> now" using assms(2) NpcAudio by simp_all
  ultimately have "scheduled_by (schedule (trace (playAudioChunk now audioData ?st)))
      (nextStartTimeRef (playAudioChunk now audioData ?st))"
    by (rule playAudioChunk_schedule)
  then show ?thesis by (simp add: NpcAudio onNpcAudio_def)
next
  case (SourceEnded source)
  then show ?thesis using assms(1) by (simp add: onended_schedule)
qed

lemma playback_run_schedule:
  "scheduled_by (schedule (trace st)) (nextStartTimeRef st) \<Longrightarrow> list_all clock_event evs
   \<Longrightarrow> scheduled_by (schedule (trace (playback_run r evs st)))
         (nextStartTimeRef (playback_run r evs st))"
  unfolding playback_run_def
proof (induction evs arbitrary: st)
  case Nil
  then show ?case by simp
next
  case (Cons ev evs)
  have "scheduled_by (schedule (trace (playback_step r st ev)))
      (nextStartTimeRef (playback_step r st ev))"
    using Cons.prems by (intro playback_step_schedule) simp_all
  then show ?case using Cons.IH [of "playback_step r st ev"] Cons.prems(2) by simp
qed

lemma in_order_nth:
  "in_order sched \<Longrightarrow> Suc i < length sched
   \<Longrightarrow> to_double (fst (sched ! i) + snd (sched ! i)) \<le> fst (sched ! Suc i)
       \<and> fst (sched ! i) \<le> fst (sched ! Suc i)"
proof (induction sched arbitrary: i rule: in_order.induct)
  case (1 s1 d1 s2 d2 rest)
  then show ?case by (cases i) auto
qed simp_all

text \<open>
  C3, as stated, fails. The sum \<open>nextStartTimeRef.current += audioBuffer.duration\<close> is
  rounded, and the next chunk starts at the rounded sum, which can lie below the exact
  one. Two chunks of silence arrive while the clock reads \<open>0.5\<close>: the first starts at
  \<open>0.5\<close> and lasts \<open>8.333333333333333e-05\<close>, the second starts at
  \<open>0.5000833333333333\<close>, which is \<open>677 / 2 ^ 66\<close> less than the start of the first plus
  its duration.
\<close>

theorem chunks_exact_end_counterexample:
  "schedule (trace activeApp) = []
   \<and> schedule (trace (playback_run (render activeApp)
        [NpcAudio (1 / 2) ''AAAAAA=='', NpcAudio (1 / 2) ''AAAAAA==''] activeApp))
     = [(1 / 2, 6148914691236517 / 73786976294838206464),
        (4504350227308391 / 9007199254740992, 6148914691236517 / 73786976294838206464)]
   \<and> fst (schedule (trace (playback_run (render activeApp)
        [NpcAudio (1 / 2) ''AAAAAA=='', NpcAudio (1 / 2) ''AAAAAA==''] activeApp)) ! Suc 0)
     < fst (schedule (trace (playback_run (render activeApp)
        [NpcAudio (1 / 2) ''AAAAAA=='', NpcAudio (1 / 2) ''AAAAAA==''] activeApp)) ! 0)
       + snd (schedule (trace (playback_run (render activeApp)
        [NpcAudio (1 / 2) ''AAAAAA=='', NpcAudio (1 / 2) ''AAAAAA==''] activeApp)) ! 0)"
proof -
  let ?evs = "[NpcAudio (1 / 2) ''AAAAAA=='', NpcAudio (1 / 2) ''AAAAAA=='']"
  have run: "schedule (trace (playback_run (render activeApp) ?evs activeApp))
      = [(1 / 2, 6148914691236517 / 73786976294838206464),
         (4504350227308391 / 9007199254740992, 6148914691236517 / 73786976294838206464)]"
    using to_double_half_plus
    by (simp add: playback_run_def onNpcAudio_example render_activeApp activeApp_fields
        to_double_12000)
  show ?thesis by (simp only: run) (simp add: activeApp_fields)
qed

text \<open>
  C3, amended. Start from a state in which nothing is scheduled and \<open>nextStartTimeRef\<close>
  holds a double that is not negative, and let chunks arrive and nodes end in any order,
  the clock reading a double that is not negative at each arrival. The chunks that
  \<open>playAudioChunk\<close> schedules are listed by the trace in the order of their arrival, each
  with its start time and its duration. Any chunk of that list and the one after it
  satisfy: the later chunk starts no earlier than the end the code computes for the
  earlier one, which is the double nearest to the earlier one's start plus its duration;
  it starts no earlier than the earlier one starts; and it falls short of the exact sum
  by at most that sum divided by \<open>2 ^ 53\<close>. Chunks that fail to decode schedule nothing
  and change no time.
\<close>

theorem chunks_play_in_order:
  assumes "schedule (trace st) = []"
    and "is_double (nextStartTimeRef st)" and "0 \<le> nextStartTimeRef st"
    and "list_all clock_event evs"
    and "Suc i < length (schedule (trace (playback_run r evs st)))"
  shows "to_double (fst (schedule (trace (playback_run r evs st)) ! i)
                    + snd (schedule (trace (playback_run r evs st)) ! i))
         \<le> fst (schedule (trace (playback_run r evs st)) ! Suc i)
     \<and> fst (schedule (trace (playback_run r evs st)) ! i)
         \<le> fst (schedule (trace (playback_run r evs st)) ! Suc i)
     \<and> fst (schedule (trace (playback_run r evs st)) ! i)
           + snd (schedule (trace (playback_run r evs st)) ! i)
           - \<bar>fst (schedule (trace (playback_run r evs st)) ! i)
               + snd (schedule (trace (playback_run r evs st)) ! i)\<bar> / 2 ^ 53
         \<le> fst (schedule (trace (playback_run r evs st)) ! Suc i)"
proof -
  let ?sched = "schedule (trace (playback_run r evs st))"
  have "scheduled_by (schedule (trace st)) (nextStartTimeRef st)"
    using assms(1-3) by (simp add: scheduled_by_def)
  then have "scheduled_by ?sched (nextStartTimeRef (playback_run r evs st))"
    using assms(4) by (rule playback_run_schedule)
  then have "in_order ?sched" by (simp add: scheduled_by_def)
  then have 1: "to_double (fst (?sched ! i) + snd (?sched ! i)) \<le> fst (?sched ! Suc i)
      \<and> fst (?sched ! i) \<le> fst (?sched ! Suc i)"
    using assms(5) by (rule in_order_nth)
  have "fst (?sched ! i) + snd (?sched ! i) - \<bar>fst (?sched ! i) + snd (?sched ! i)\<bar> / 2 ^ 53
      \<le> to_double (fst (?sched ! i) + snd (?sched ! i))"
    by (rule to_double_lower)
  then show ?thesis using 1 by linarith
qed

text \<open>
  Two chunks of silence with a stray \<open>onended\<close> between them and an undecodable chunk
  after them, the clock reading \<open>0.5\<close> at both; the second is put at the double nearest
  to the end of the first.
\<close>

theorem chunks_play_in_order_witness:
  "schedule (trace activeApp) = []
   \<and> is_double (nextStartTimeRef activeApp) \<and> 0 \<le> nextStartTimeRef activeApp
   \<and> list_all clock_event
       [NpcAudio (1 / 2) ''AAAAAA=='', SourceEnded 7, NpcAudio (1 / 2) ''AAAAAA=='', NpcAudio 1 ''QQ=='']
   \<and> schedule (trace (playback_run (render activeApp)
        [NpcAudio (1 / 2) ''AAAAAA=='', SourceEnded 7, NpcAudio (1 / 2) ''AAAAAA=='', NpcAudio 1 ''QQ=='']
        activeApp))
     = [(1 / 2, 6148914691236517 / 73786976294838206464),
        (4504350227308391 / 9007199254740992, 6148914691236517 / 73786976294838206464)]
   \<and> to_double (1 / 2 + 6148914691236517 / 73786976294838206464)
       \<le> 4504350227308391 / 9007199254740992
   \<and> (1 / 2 :: real) \<le> 4504350227308391 / 9007199254740992"
proof -
  let ?evs = "[NpcAudio (1 / 2) ''AAAAAA=='', SourceEnded 7, NpcAudio (1 / 2) ''AAAAAA=='',
               NpcAudio 1 ''QQ=='']"
  have h1: "schedule (trace activeApp) = []" by (simp add: activeApp_fields)
  have h2: "is_double (nextStartTimeRef activeApp)" by (simp add: activeApp_fields is_double_0)
  have h3: "0 \<le> nextStartTimeRef activeApp" by (simp add: activeApp_fields)
  have h4: "list_all clock_event ?evs" by (simp add: is_double_def to_double_half to_double_1)
  have run: "schedule (trace (playback_run (render activeApp) ?evs activeApp))
      = [(1 / 2, 6148914691236517 / 73786976294838206464),
         (4504350227308391 / 9007199254740992, 6148914691236517 / 73786976294838206464)]"
    using to_double_half_plus
    by (simp add: playback_run_def onNpcAudio_example onNpcAudio_odd render_activeApp
        activeApp_fields onended_def Let_def to_double_12000)
  have h5: "Suc 0 < length (schedule (trace (playback_run (render activeApp) ?evs activeApp)))"
    by (simp only: run) simp
  have "to_double (1 / 2 + 6148914691236517 / 73786976294838206464)
          \<le> 4504350227308391 / 9007199254740992
      \<and> (1 / 2 :: real) \<le> 4504350227308391 / 9007199254740992"
    using chunks_play_in_order [OF h1 h2 h3 h4 h5] by (simp only: run) simp
  then show ?thesis using h1 h2 h3 h4 run by (simp only:)
qed

subsection \<open>The speaking flag\<close>

text \<open>
  C1. The flag \<open>isNpcSpeaking\<close> is meant to be true exactly while \<open>audioSourcesRef\<close> holds
  a node. The code breaks this on a chunk that does not decode: \<open>onNpcAudio\<close> raises the
  flag, \<open>playAudioChunk\<close> catches the failure of \<open>decodeAudioData\<close> and schedules nothing,
  and nothing lowers the flag again. From a conversation in progress with the flag down
  and no node, one such chunk leaves the flag up and still no node.
\<close>

theorem speaking_flag_stuck:
  "isNpcSpeaking activeApp = False \<and> audioSourcesRef activeApp = []
   \<and> isNpcSpeaking (playback_run (render activeApp) [NpcAudio 0 ''QQ==''] activeApp) = True
   \<and> audioSourcesRef (playback_run (render activeApp) [NpcAudio 0 ''QQ==''] activeApp) = []"
  by (simp add: playback_run_def onNpcAudio_odd render_activeApp activeApp_fields)

text \<open>
  As long as every chunk decodes, and the session's callbacks were created in a render
  with the flag down, the flag does follow the set of nodes.
\<close>

lemma playAudioChunk_decodable:
  assumes "decodable base64Audio" and "outputAudioContextRef st \<noteq> None"
  shows "audioSourcesRef (playAudioChunk now base64Audio st) = audioSourcesRef st @ [nodesCreated st]
    \<and> isNpcSpeaking (playAudioChunk now base64Audio st) = isNpcSpeaking st
    \<and> outputAudioContextRef (playAudioChunk now base64Audio st) \<noteq> None"
  using assms
  by (auto simp add: playAudioChunk_def decodable_def Let_def emit_def split: sum.splits)

lemma playback_step_speaking:
  assumes "\<not> isNpcSpeaking r" and "decodable_event ev" and "outputAudioContextRef st \<noteq> None"
    and "isNpcSpeaking st \<longleftrightarrow> audioSourcesRef st \<noteq> []"
  shows "(isNpcSpeaking (playback_step r st ev) \<longleftrightarrow> audioSourcesRef (playback_step r st ev) \<noteq> [])
    \<and> outputAudioContextRef (playback_step r st ev) \<noteq> None"
proof (cases ev)
  case (NpcAudio now audioData)
  let ?st = "st\<lparr>isNpcSpeaking := True\<rparr>"
  have "decodable audioData" using assms(2) NpcAudio by simp
  moreover have "outputAudioContextRef ?st \<noteq> None" using assms(3) by simp
  ultimately show ?thesis
    using playAudioChunk_decodable [of audioData ?st now] assms(1)
    by (simp add: NpcAudio onNpcAudio_def)
next
  case (SourceEnded source)
  then show ?thesis using assms(3,4) by (auto simp add: onended_def Let_def)
qed

lemma speaking_iff_sources_when_decodable:
  assumes "\<not> isNpcSpeaking r" and "list_all decodable_event evs"
    and "outputAudioContextRef st \<noteq> None"
    and "isNpcSpeaking st \<longleftrightarrow> audioSourcesRef st \<noteq> []"
  shows "isNpcSpeaking (playback_run r evs st) \<longleftrightarrow> audioSourcesRef (playback_run r evs st) \<noteq> []"
  using assms(2-4) unfolding playback_run_def
proof (induction evs arbitrary: st)
  case Nil
  then show ?case by simp
next
  case (Cons ev evs)
  have "(isNpcSpeaking (playback_step r st ev) \<longleftrightarrow> audioSourcesRef (playback_step r st ev) \<noteq> [])
    \<and> outputAudioContextRef (playback_step r st ev) \<noteq> None"
    using assms(1) Cons.prems by (intro playback_step_speaking) simp_all
  then show ?case using Cons.IH [of "playback_step r st ev"] Cons.prems(1) by simp
qed

section \<open>Teardown\<close>

lemma stopSources_eq: "stopSources hs st = st\<lparr>trace := trace st @ map SourceStop hs\<rparr>"
  by (induction hs arbitrary: st) (simp_all add: emit_def)

lemma closeSession_eq:
  "closeSession st = st\<lparr>liveSessionRef := None,
     trace := trace st @ (case liveSessionRef st of Some h \<Rightarrow> [SessionClose h] | None \<Rightarrow> [])\<rparr>"
  by (cases "liveSessionRef st") (simp_all add: closeSession_def emit_def)

lemma stopTracks_eq:
  "stopTracks st = st\<lparr>localStreamRef := None,
     trace := trace st @ (case localStreamRef st of Some h \<Rightarrow> [TrackStop h] | None \<Rightarrow> [])\<rparr>"
  by (cases "localStreamRef st") (simp_all add: stopTracks_def emit_def)

lemma disconnectProcessor_eq:
  "disconnectProcessor st = st\<lparr>scriptProcessorRef := None,
     trace := trace st
       @ (case scriptProcessorRef st of Some h \<Rightarrow> [ProcessorDisconnect h] | None \<Rightarrow> [])\<rparr>"
  by (cases "scriptProcessorRef st") (simp_all add: disconnectProcessor_def emit_def)

lemma disconnectMediaSource_eq:
  "disconnectMediaSource st = st\<lparr>mediaStreamSourceRef := None,
     trace := trace st
       @ (case mediaStreamSourceRef st of Some h \<Rightarrow> [MediaSourceDisconnect h] | None \<Rightarrow> [])\<rparr>"
  by (cases "mediaStreamSourceRef st") (simp_all add: disconnectMediaSource_def emit_def)

lemma closeInputContext_eq:
  "closeInputContext st = st\<lparr>inputAudioContextRef := None,
     trace := trace st
       @ (case inputAudioContextRef st of
            Some c \<Rightarrow> if c \<noteq> Closed then [InputContextClose] else [] | None \<Rightarrow> [])\<rparr>"
  by (cases "inputAudioContextRef st") (simp_all add: closeInputContext_def emit_def)

lemma stopAudioSources_eq:
  "stopAudioSources st = st\<lparr>audioSourcesRef := [],
     trace := trace st @ map SourceStop (audioSourcesRef st)\<rparr>"
  by (simp add: stopAudioSources_def stopSources_eq)

lemma closeOutputContext_eq:
  "closeOutputContext st = st\<lparr>outputAudioContextRef := None,
     trace := trace st
       @ (case outputAudioContextRef st of
            Some c \<Rightarrow> if c \<noteq> Closed then [OutputContextClose] else [] | None \<Rightarrow> [])\<rparr>"
  by (cases "outputAudioContextRef st") (simp_all add: closeOutputContext_def emit_def)

lemma cleanup_eq:
  "cleanupAudioAndSession st =
     st\<lparr>isNpcSpeaking := False, isRecording := False,
        liveSessionRef := None, inputAudioContextRef := None, outputAudioContextRef := None,
        scriptProcessorRef := None, localStreamRef := None, mediaStreamSourceRef := None,
        audioSourcesRef := [], trace := trace st @ teardownEffects st\<rparr>"
  by (simp add: cleanupAudioAndSession_def closeSession_eq stopTracks_eq disconnectProcessor_eq
      disconnectMediaSource_eq closeInputContext_eq stopAudioSources_eq closeOutputContext_eq
      teardownEffects_def)

lemma teardownEffects_cleanup: "teardownEffects (cleanupAudioAndSession st) = []"
  by (simp add: cleanup_eq teardownEffects_def)

lemma cleanup_idem: "cleanupAudioAndSession (cleanupAudioAndSession st) = cleanupAudioAndSession st"
  by (subst cleanup_eq [of "cleanupAudioAndSession st"]) (simp add: teardownEffects_cleanup, simp add: cleanup_eq)

lemma cleanup_funpow: "(cleanupAudioAndSession ^^ Suc n) st = cleanupAudioAndSession st"
  by (induction n) (simp_all add: cleanup_idem)

lemma stopped_append: "stopped (es @ fs) = stopped es @ stopped fs"
  by (induction es rule: stopped.induct) simp_all

lemma stopped_map_SourceStop: "stopped (map SourceStop hs) = hs"
  by (induction hs) simp_all

lemma stopped_teardownEffects: "stopped (teardownEffects st) = audioSourcesRef st"
  by (simp add: teardownEffects_def stopped_append stopped_map_SourceStop split: option.split)

lemma summarizeCalls_append: "summarizeCalls (es @ fs) = summarizeCalls es @ summarizeCalls fs"
  by (induction es rule: summarizeCalls.induct) simp_all

lemma summarizeCalls_map_SourceStop: "summarizeCalls (map SourceStop hs) = []"
  by (induction hs) simp_all

lemma summarizeCalls_teardownEffects: "summarizeCalls (teardownEffects st) = []"
  by (simp add: teardownEffects_def summarizeCalls_append summarizeCalls_map_SourceStop split: option.split)

text \<open>
  C2, amended. \<open>cleanupAudioAndSession\<close> calls \<open>stop\<close> on every node of \<open>audioSourcesRef\<close>,
  in the order of the set, empties the set and leaves \<open>nextStartTimeRef\<close> as it is. Any
  number of further calls gives the state of a single call. With no node, and nothing
  else open, it changes nothing.
\<close>

theorem cleanup_stops_and_clears:
  "stopped (trace (cleanupAudioAndSession st)) = stopped (trace st) @ audioSourcesRef st
   \<and> audioSourcesRef (cleanupAudioAndSession st) = []
   \<and> nextStartTimeRef (cleanupAudioAndSession st) = nextStartTimeRef st
   \<and> (cleanupAudioAndSession ^^ Suc n) st = cleanupAudioAndSession st
   \<and> cleanupAudioAndSession initialApp = initialApp"
proof -
  have "cleanupAudioAndSession initialApp = initialApp"
    by (simp add: cleanup_eq teardownEffects_def initialApp_def)
  then show ?thesis
    by (simp only: cleanup_funpow) (simp add: cleanup_eq stopped_append stopped_teardownEffects)
qed

text \<open>
  C2, as stated, fails: \<open>cleanupAudioAndSession\<close> does not assign \<open>nextStartTimeRef\<close>. After
  one chunk of silence the next start time is the double nearest to \<open>1 / 12000\<close>, and it
  still is after the teardown.
\<close>

theorem cleanup_keeps_nextStartTime_counterexample:
  "nextStartTimeRef (cleanupAudioAndSession (playAudioChunk 0 ''AAAAAA=='' activeApp)) \<noteq> 0"
  by (simp add: playing_example cleanup_eq to_double_12000)

section \<open>The end of a conversation\<close>

lemma handleCloseRehearsal_eq:
  "handleCloseRehearsal st =
     st\<lparr>status := Idle, scenario := None, transcript := [], result := None, error := None,
        isNpcSpeaking := False, isRecording := False, studyCardHint := None,
        streetViewInstance := map_option (\<lambda>v. False) (streetViewInstance st),
        liveSessionRef := None, inputAudioContextRef := None, outputAudioContextRef := None,
        scriptProcessorRef := None, localStreamRef := None, mediaStreamSourceRef := None,
        audioSourcesRef := [],
        trace := trace st @ teardownEffects st
                   @ (if streetViewInstance st = Some True then [StreetViewHide] else [])\<rparr>"
  by (cases "streetViewInstance st")
     (simp_all add: handleCloseRehearsal_def cleanup_eq emit_def Let_def)

lemma handleEndConversation_summarize:
  "status r \<noteq> Summarizing \<Longrightarrow> scenario r = Some sc \<Longrightarrow> transcript r \<noteq> [] \<Longrightarrow>
   handleEndConversation r st =
     (cleanupAudioAndSession st)
       \<lparr>status := Summarizing,
        trace := trace st @ teardownEffects st @ [SummarizeCall sc (transcript r)]\<rparr>"
  by (simp add: handleEndConversation_def Let_def cleanup_eq emit_def teardownEffects_def)

lemma handleEndConversation_short:
  "status r \<noteq> Summarizing \<Longrightarrow> scenario r = None \<or> transcript r = [] \<Longrightarrow>
   handleEndConversation r st = handleCloseRehearsal st"
  by (auto simp add: handleEndConversation_def Let_def handleCloseRehearsal_eq
      cleanup_eq teardownEffects_def split: option.split)

lemma handleCloseRehearsal_refs:
  "liveSessionRef (handleCloseRehearsal st) = None"
  "localStreamRef (handleCloseRehearsal st) = None"
  "scriptProcessorRef (handleCloseRehearsal st) = None"
  "mediaStreamSourceRef (handleCloseRehearsal st) = None"
  "inputAudioContextRef (handleCloseRehearsal st) = None"
  "outputAudioContextRef (handleCloseRehearsal st) = None"
  "audioSourcesRef (handleCloseRehearsal st) = []"
  by (simp_all add: handleCloseRehearsal_eq)

lemma handleCloseRehearsal_state:
  "status (handleCloseRehearsal st) = Idle"
  "scenario (handleCloseRehearsal st) = None"
  "transcript (handleCloseRehearsal st) = []"
  "result (handleCloseRehearsal st) = None"
  "error (handleCloseRehearsal st) = None"
  by (simp_all add: handleCloseRehearsal_eq)

lemma handleCloseRehearsal_trace:
  "trace (handleCloseRehearsal st)
     = trace st @ teardownEffects st
         @ (if streetViewInstance st = Some True then [StreetViewHide] else [])"
  by (simp add: handleCloseRehearsal_eq)

lemma cleanup_refs:
  "liveSessionRef (cleanupAudioAndSession st) = None"
  "localStreamRef (cleanupAudioAndSession st) = None"
  "scriptProcessorRef (cleanupAudioAndSession st) = None"
  "mediaStreamSourceRef (cleanupAudioAndSession st) = None"
  "inputAudioContextRef (cleanupAudioAndSession st) = None"
  "outputAudioContextRef (cleanupAudioAndSession st) = None"
  "audioSourcesRef (cleanupAudioAndSession st) = []"
  by (simp_all add: cleanup_eq)

text \<open>
  C6. Let \<open>handleEndConversation\<close> run in a render whose status is not \<open>Summarizing\<close>.
  Whatever the scenario and the transcript, it leaves no session, stream, processor,
  media source, input or output context and no source node, and the trace it leaves
  begins with the old trace followed by the whole teardown, which stops every node and
  holds no summarization call. A summarization call is added exactly when the render has
  a scenario and a transcript that is not empty, and then it is the one thing after the
  teardown, with the status \<open>Summarizing\<close>. Otherwise the result is that of
  \<open>handleCloseRehearsal\<close>: status \<open>Idle\<close>, no scenario, transcript, result or error. The
  handler is a total function of the state: this holds as well when every ref is already
  empty, where the teardown asks nothing of the platform.
\<close>

theorem handleEndConversation_teardown_first:
  assumes "status r \<noteq> Summarizing"
  shows "liveSessionRef (handleEndConversation r st) = None
    \<and> localStreamRef (handleEndConversation r st) = None
    \<and> scriptProcessorRef (handleEndConversation r st) = None
    \<and> mediaStreamSourceRef (handleEndConversation r st) = None
    \<and> inputAudioContextRef (handleEndConversation r st) = None
    \<and> outputAudioContextRef (handleEndConversation r st) = None
    \<and> audioSourcesRef (handleEndConversation r st) = []
    \<and> stopped (teardownEffects st) = audioSourcesRef st
    \<and> summarizeCalls (teardownEffects st) = []
    \<and> take (length (trace st @ teardownEffects st)) (trace (handleEndConversation r st))
        = trace st @ teardownEffects st
    \<and> summarizeCalls (trace (handleEndConversation r st))
        = summarizeCalls (trace st)
          @ (case scenario r of
               None \<Rightarrow> []
             | Some sc \<Rightarrow> if transcript r = [] then [] else [(sc, transcript r)])
    \<and> (scenario r = Some sc \<and> transcript r \<noteq> [] \<longrightarrow>
          trace (handleEndConversation r st)
            = trace st @ teardownEffects st @ [SummarizeCall sc (transcript r)]
          \<and> status (handleEndConversation r st) = Summarizing)
    \<and> (scenario r = None \<or> transcript r = [] \<longrightarrow>
          handleEndConversation r st = handleCloseRehearsal st
          \<and> status (handleEndConversation r st) = Idle
          \<and> scenario (handleEndConversation r st) = None
          \<and> transcript (handleEndConversation r st) = []
          \<and> result (handleEndConversation r st) = None
          \<and> error (handleEndConversation r st) = None)"
proof (cases "scenario r = None \<or> transcript r = []")
  case True
  have eq: "handleEndConversation r st = handleCloseRehearsal st"
    using assms True by (rule handleEndConversation_short)
  have calls: "(case scenario r of None \<Rightarrow> []
      | Some sc \<Rightarrow> if transcript r = [] then [] else [(sc, transcript r)]) = []"
    using True by (auto split: option.split)
  have no: "\<not> (scenario r = Some sc \<and> transcript r \<noteq> [])"
    using True by auto
  show ?thesis
    unfolding eq calls
    using True no
    by (simp add: handleCloseRehearsal_refs handleCloseRehearsal_state
        handleCloseRehearsal_trace stopped_teardownEffects summarizeCalls_teardownEffects
        summarizeCalls_append)
next
  case False
  then obtain sc' where sc': "scenario r = Some sc'" and tr: "transcript r \<noteq> []" by auto
  have eq: "handleEndConversation r st =
     (cleanupAudioAndSession st)
       \<lparr>status := Summarizing,
        trace := trace st @ teardownEffects st @ [SummarizeCall sc' (transcript r)]\<rparr>"
    using assms sc' tr by (rule handleEndConversation_summarize)
  show ?thesis
    unfolding eq using sc' tr
    by (simp add: cleanup_refs stopped_teardownEffects summarizeCalls_teardownEffects
        summarizeCalls_append)
qed

text \<open>
  A conversation in progress with one chunk playing is torn down, then summarized. The
  same conversation with everything already torn down asks nothing more of the platform
  and is still summarized. The state of the first render, with nothing open and no
  scenario, is left as it is.
\<close>

theorem handleEndConversation_teardown_first_witness:
  "status (render activeApp) \<noteq> Summarizing
   \<and> trace (handleEndConversation (render activeApp) (playAudioChunk 0 ''AAAAAA=='' activeApp))
     = [SourceStart 0 0 (to_double (1 / 12000)), SessionClose 0, TrackStop 2,
        ProcessorDisconnect 1, MediaSourceDisconnect 3, InputContextClose, SourceStop 0,
        OutputContextClose,
        SummarizeCall exampleScenario
          [\<lparr>speaker = User, text' = ''Hello'', isFinal = True, imageUrl = None\<rparr>]]
   \<and> trace (handleEndConversation (render activeApp) (cleanupAudioAndSession activeApp))
     = trace (cleanupAudioAndSession activeApp)
       @ [SummarizeCall exampleScenario
            [\<lparr>speaker = User, text' = ''Hello'', isFinal = True, imageUrl = None\<rparr>]]
   \<and> status (render initialApp) \<noteq> Summarizing
   \<and> handleEndConversation (render initialApp) initialApp = initialApp"
proof -
  let ?r = "render activeApp" and ?st = "playAudioChunk 0 ''AAAAAA=='' activeApp"
  let ?st' = "cleanupAudioAndSession activeApp"
  have r: "status ?r \<noteq> Summarizing" "scenario ?r = Some exampleScenario"
    "transcript ?r = [\<lparr>speaker = User, text' = ''Hello'', isFinal = True, imageUrl = None\<rparr>]"
    by (simp_all add: render_activeApp)
  have t: "trace ?st @ teardownEffects ?st
      = [SourceStart 0 0 (to_double (1 / 12000)), SessionClose 0, TrackStop 2,
         ProcessorDisconnect 1, MediaSourceDisconnect 3, InputContextClose, SourceStop 0,
         OutputContextClose]"
    by (simp only: playing_example) (simp add: teardownEffects_def activeApp_def initialApp_def)
  have a: "trace (handleEndConversation ?r ?st)
      = (trace ?st @ teardownEffects ?st) @ [SummarizeCall exampleScenario (transcript ?r)]"
    using handleEndConversation_teardown_first [OF r(1), where st = ?st and sc = exampleScenario] r(2,3)
    by simp
  have a': "trace (handleEndConversation ?r ?st')
      = trace ?st' @ [SummarizeCall exampleScenario (transcript ?r)]"
    using handleEndConversation_teardown_first [OF r(1), where st = ?st' and sc = exampleScenario] r(2,3)
    by (simp add: teardownEffects_cleanup)
  have i: "status (render initialApp) \<noteq> Summarizing" "scenario (render initialApp) = None"
    by (simp_all add: render_def react_state.truncate_def initialApp_def)
  have "handleEndConversation (render initialApp) initialApp = handleCloseRehearsal initialApp"
    using handleEndConversation_teardown_first [OF i(1), where st = initialApp and sc = exampleScenario] i(2)
    by simp
  then have b: "handleEndConversation (render initialApp) initialApp = initialApp"
    by (simp add: handleCloseRehearsal_eq teardownEffects_def initialApp_def)
  show ?thesis using r(1) i(1) b unfolding a a' t r(3) by simp
qed

text \<open>
  C10. In a render whose status is \<open>Summarizing\<close>, \<open>handleEndConversation\<close> returns the
  state it was given: status, scenario, transcript, result, refs and trace. A remote close
  handled by \<open>onClose\<close> in such a render only tears down, and adds no summarization call.
\<close>

theorem handleEndConversation_while_summarizing:
  assumes "status r = Summarizing"
  shows "handleEndConversation r st = st
    \<and> onClose r st = cleanupAudioAndSession st
    \<and> summarizeCalls (trace (onClose r st)) = summarizeCalls (trace st)"
  using assms
  by (simp add: handleEndConversation_def onClose_def cleanup_eq summarizeCalls_append
      summarizeCalls_teardownEffects)

text \<open>The guard at work on the conversation in progress, once its status is \<open>Summarizing\<close>.\<close>

theorem handleEndConversation_while_summarizing_witness:
  "status (render (activeApp\<lparr>status := Summarizing\<rparr>)) = Summarizing
   \<and> handleEndConversation (render (activeApp\<lparr>status := Summarizing\<rparr>))
        (activeApp\<lparr>status := Summarizing\<rparr>) = activeApp\<lparr>status := Summarizing\<rparr>"
proof -
  have h: "status (render (activeApp\<lparr>status := Summarizing\<rparr>)) = Summarizing"
    by (simp add: render_def react_state.truncate_def)
  show ?thesis
    using handleEndConversation_while_summarizing [OF h, where st = "activeApp\<lparr>status := Summarizing\<rparr>"] h
    by simp
qed

text \<open>
  The callbacks of a session are closures of the render in which \<open>handleBeginConversation\<close>
  was called, and the buttons that call it show while the status is \<open>Briefing\<close> or
  \<open>PausedForFeedback\<close>. In a render whose status is not \<open>Active\<close>, \<open>onClose\<close> only tears
  down. When the summary arrives or fails, the status leaves \<open>Summarizing\<close>.
\<close>

lemma onClose_not_active:
  assumes "status r \<noteq> Active"
  shows "onClose r st = cleanupAudioAndSession st"
    and "summarizeCalls (trace (onClose r st)) = summarizeCalls (trace st)"
  using assms
  by (simp_all add: onClose_def cleanup_eq summarizeCalls_append summarizeCalls_teardownEffects)

lemma summarizeSettled_status:
  "status (summarizeSettled (Some summaryResult) st) = PausedForFeedback"
  "result (summarizeSettled (Some summaryResult) st) = Some summaryResult"
  "status (summarizeSettled None st) = Error"
  by (simp_all add: summarizeSettled_def)

end
